theory Spec2Isabelle
  imports Complex_Main "HOL-Library.Word" "HOL-Library.Sublist" "HOL-Library.Multiset"
begin

unbundle bit_operations_syntax
section \<open>Shared ring buffer (src/quantlib/ipc/shared\_memory.cpp)\<close>

text \<open>
  The header lives in the mapped region and holds six 64-bit atomics.  The model is
  sequential: every public operation of the class is one atomic step, which is the
  granularity at which the single-producer / single-consumer discipline interleaves
  the two ends.  All counters are \<open>uint64_t\<close> and wrap around.
\<close>

type_synonym u64 = "64 word"

record Header =
  write_index :: u64
  read_index :: u64
  total_writes :: u64
  total_reads :: u64
  contention_events :: u64
  max_queue_depth :: u64

text \<open>
  The object itself (member names lose their trailing underscore): \<open>header\<close> is a
  pointer (\<open>None\<close> is the null pointer), \<open>buffer\<close> is the slot array \<open>T[Size]\<close> behind the header, and the two starvation counters are
  plain members.  The clock value \<open>last_access_time\<close> is not modelled.
\<close>

record 'a SharedRingBuffer =
  header :: "Header option"
  buffer :: "'a list"
  is_owner :: bool
  consecutive_empty_reads :: u64
  consecutive_full_writes :: u64

text \<open>\<open>static constexpr uint64_t MASK = Size - 1\<close>; \<open>Size\<close> is the template parameter.\<close>

definition MASK :: "nat \<Rightarrow> u64" where
  "MASK Size = of_nat (Size - 1)"

definition slot_index :: "nat \<Rightarrow> u64 \<Rightarrow> nat" where
  "slot_index Size idx = unat (idx AND MASK Size)"

text \<open>
  The owner's constructor: placement-new of \<open>Header()\<close> (all counters zero) and of
  \<open>T()\<close> in every slot; \<open>T0\<close> is the value-initialised record.
\<close>

definition Header_init :: Header where
  "Header_init = \<lparr>write_index = 0, read_index = 0, total_writes = 0, total_reads = 0,
                   contention_events = 0, max_queue_depth = 0\<rparr>"

definition create :: "nat \<Rightarrow> 'a \<Rightarrow> 'a SharedRingBuffer" where
  "create Size T0 = \<lparr>header = Some Header_init, buffer = replicate Size T0,
                      is_owner = True,
                      consecutive_empty_reads = 0, consecutive_full_writes = 0\<rparr>"

text \<open>
  The move constructor returns the new object and what is left of \<open>other\<close>: its
  pointers are nulled (the empty list stands for the null \<open>buffer\<close>).
\<close>

definition move_construct :: "'a SharedRingBuffer \<Rightarrow> 'a SharedRingBuffer \<times> 'a SharedRingBuffer" where
  "move_construct other =
     (other, other\<lparr>header := None, buffer := [], is_owner := False\<rparr>)"

definition size_rb :: "'a SharedRingBuffer \<Rightarrow> u64" where
  "size_rb b = (case header b of None \<Rightarrow> 0
                | Some h \<Rightarrow> write_index h - read_index h)"

definition empty_rb :: "'a SharedRingBuffer \<Rightarrow> bool" where
  "empty_rb b = (case header b of None \<Rightarrow> True
                 | Some h \<Rightarrow> write_index h = read_index h)"

definition full_rb :: "nat \<Rightarrow> 'a SharedRingBuffer \<Rightarrow> bool" where
  "full_rb Size b = (case header b of None \<Rightarrow> False
                     | Some h \<Rightarrow> write_index h - read_index h \<ge> of_nat Size)"

definition get_total_writes :: "'a SharedRingBuffer \<Rightarrow> u64" where
  "get_total_writes b = (case header b of None \<Rightarrow> 0 | Some h \<Rightarrow> total_writes h)"

definition get_total_reads :: "'a SharedRingBuffer \<Rightarrow> u64" where
  "get_total_reads b = (case header b of None \<Rightarrow> 0 | Some h \<Rightarrow> total_reads h)"

text \<open>
  The three private metric helpers dereference \<open>header\<close> without a check; they are only
  called behind the null check of their callers, so the model takes the header itself.
  The compare-and-swap loop of \<open>update_metrics_on_write\<close> stores the current size when it
  is larger than the recorded maximum.
\<close>

definition update_metrics_on_write :: "Header \<Rightarrow> Header" where
  "update_metrics_on_write h =
     (let h1 = h\<lparr>total_writes := total_writes h + 1\<rparr>;
          current_size = write_index h1 - read_index h1;
          current_max = max_queue_depth h1
      in if current_size > current_max then h1\<lparr>max_queue_depth := current_size\<rparr> else h1)"

definition update_metrics_on_read :: "Header \<Rightarrow> Header" where
  "update_metrics_on_read h = h\<lparr>total_reads := total_reads h + 1\<rparr>"

definition update_metrics_on_contention :: "Header \<Rightarrow> Header" where
  "update_metrics_on_contention h = h\<lparr>contention_events := contention_events h + 1\<rparr>"

definition try_write :: "nat \<Rightarrow> 'a SharedRingBuffer \<Rightarrow> 'a \<Rightarrow> bool \<times> 'a SharedRingBuffer" where
  "try_write Size b item =
     (case header b of
        None \<Rightarrow> (False, b)
      | Some h \<Rightarrow>
          let current_write_idx = write_index h;
              current_read_idx = read_index h
          in if current_write_idx - current_read_idx \<ge> of_nat Size
             then (False, b\<lparr>consecutive_full_writes := consecutive_full_writes b + 1,
                              header := Some (update_metrics_on_contention h)\<rparr>)
             else (True, b\<lparr>consecutive_full_writes := 0,
                             buffer := (buffer b)[slot_index Size current_write_idx := item],
                             header := Some (update_metrics_on_write
                                          (h\<lparr>write_index := current_write_idx + 1\<rparr>))\<rparr>))"

text \<open>
  \<open>try_read\<close> has an out-parameter: the model takes the caller's \<open>item\<close> and returns it
  unchanged when the call returns false.
\<close>

definition try_read :: "nat \<Rightarrow> 'a SharedRingBuffer \<Rightarrow> 'a \<Rightarrow> bool \<times> 'a \<times> 'a SharedRingBuffer" where
  "try_read Size b item =
     (case header b of
        None \<Rightarrow> (False, item, b)
      | Some h \<Rightarrow>
          let current_read_idx = read_index h;
              current_write_idx = write_index h
          in if current_read_idx = current_write_idx
             then (False, item, b\<lparr>consecutive_empty_reads := consecutive_empty_reads b + 1\<rparr>)
             else (True, buffer b ! slot_index Size current_read_idx,
                   b\<lparr>consecutive_empty_reads := 0,
                     header := Some (update_metrics_on_read
                                  (h\<lparr>read_index := current_read_idx + 1\<rparr>))\<rparr>))"

text \<open>
  The copy loops of the batch operations, \<open>for (i = 0; i < n; ++i)\<close>, as recursion on the
  number of iterations left; \<open>i\<close> is the loop counter.
\<close>

fun write_loop :: "nat \<Rightarrow> u64 \<Rightarrow> 'a list \<Rightarrow> nat \<Rightarrow> nat \<Rightarrow> 'a list \<Rightarrow> 'a list" where
  "write_loop Size w items i 0 buf = buf"
| "write_loop Size w items i (Suc n) buf =
     write_loop Size w items (Suc i) n (buf[slot_index Size (w + of_nat i) := items ! i])"

fun read_loop :: "nat \<Rightarrow> u64 \<Rightarrow> 'a list \<Rightarrow> nat \<Rightarrow> nat \<Rightarrow> 'a list \<Rightarrow> 'a list" where
  "read_loop Size r buf i 0 items = items"
| "read_loop Size r buf i (Suc n) items =
     read_loop Size r buf (Suc i) n (items[i := buf ! slot_index Size (r + of_nat i)])"

text \<open>
  \<open>try_write_batch(items, count)\<close>: the pair of pointer and count is the list \<open>items\<close>
  with \<open>cnt = length items\<close> for the count.  The batch variants update only the totals, not the
  maximum depth.
\<close>

definition try_write_batch :: "nat \<Rightarrow> 'a SharedRingBuffer \<Rightarrow> 'a list \<Rightarrow> nat \<times> 'a SharedRingBuffer" where
  "try_write_batch Size b items =
     (let cnt = length items in
      case header b of
        None \<Rightarrow> (0, b)
      | Some h \<Rightarrow>
          if cnt = 0 then (0, b)
          else
            let current_write_idx = write_index h;
                current_read_idx = read_index h;
                available_slots = unat (of_nat Size - (current_write_idx - current_read_idx) :: u64);
                num_to_write = min cnt available_slots
            in if num_to_write = 0
               then (0, b\<lparr>consecutive_full_writes := consecutive_full_writes b + 1,
                           header := Some (update_metrics_on_contention h)\<rparr>)
               else (num_to_write,
                     b\<lparr>consecutive_full_writes := 0,
                       buffer := write_loop Size current_write_idx items 0 num_to_write (buffer b),
                       header := Some (h\<lparr>write_index := current_write_idx + of_nat num_to_write,
                                          total_writes := total_writes h + of_nat num_to_write\<rparr>)\<rparr>))"

text \<open>
  \<open>try_read_batch(items, count)\<close>: \<open>items\<close> is the caller's array, of at least \<open>cnt\<close>
  elements; the result carries the array after the call.
\<close>

definition try_read_batch ::
  "nat \<Rightarrow> 'a SharedRingBuffer \<Rightarrow> 'a list \<Rightarrow> nat \<Rightarrow> nat \<times> 'a list \<times> 'a SharedRingBuffer" where
  "try_read_batch Size b items cnt =
     (case header b of
        None \<Rightarrow> (0, items, b)
      | Some h \<Rightarrow>
          if cnt = 0 then (0, items, b)
          else
            let current_read_idx = read_index h;
                current_write_idx = write_index h;
                available_items = unat (current_write_idx - current_read_idx);
                num_to_read = min cnt available_items
            in if num_to_read = 0
               then (0, items, b\<lparr>consecutive_empty_reads := consecutive_empty_reads b + 1\<rparr>)
               else (num_to_read,
                     read_loop Size current_read_idx (buffer b) 0 num_to_read items,
                     b\<lparr>consecutive_empty_reads := 0,
                       header := Some (h\<lparr>read_index := current_read_idx + of_nat num_to_read,
                                          total_reads := total_reads h + of_nat num_to_read\<rparr>)\<rparr>))"

definition reset_tta_metrics :: "'a SharedRingBuffer \<Rightarrow> 'a SharedRingBuffer" where
  "reset_tta_metrics b =
     (case header b of
        None \<Rightarrow> b
      | Some h \<Rightarrow> b\<lparr>header := Some (h\<lparr>total_writes := 0, total_reads := 0,
                                        contention_events := 0, max_queue_depth := 0\<rparr>),
                     consecutive_empty_reads := 0,
                     consecutive_full_writes := 0\<rparr>)"

subsection \<open>Runs of operations\<close>

text \<open>
  One call of the public interface.  \<open>Read item\<close> carries the caller's variable,
  \<open>ReadBatch items\<close> the caller's array, read with \<open>count = items.size()\<close>.
\<close>

datatype 'a ring_op =
    Write 'a
  | Read 'a
  | WriteBatch "'a list"
  | ReadBatch "'a list"
  | ResetMetrics

fun step :: "nat \<Rightarrow> 'a SharedRingBuffer \<Rightarrow> 'a ring_op \<Rightarrow> 'a SharedRingBuffer" where
  "step Size b (Write x) = snd (try_write Size b x)"
| "step Size b (Read item) = snd (snd (try_read Size b item))"
| "step Size b (WriteBatch xs) = snd (try_write_batch Size b xs)"
| "step Size b (ReadBatch items) = snd (snd (try_read_batch Size b items (length items)))"
| "step Size b ResetMetrics = reset_tta_metrics b"

text \<open>The records a call put into the buffer, and the records a call handed out.\<close>

fun written :: "nat \<Rightarrow> 'a SharedRingBuffer \<Rightarrow> 'a ring_op \<Rightarrow> 'a list" where
  "written Size b (Write x) = (if fst (try_write Size b x) then [x] else [])"
| "written Size b (WriteBatch xs) = take (fst (try_write_batch Size b xs)) xs"
| "written Size b _ = []"

fun delivered :: "nat \<Rightarrow> 'a SharedRingBuffer \<Rightarrow> 'a ring_op \<Rightarrow> 'a list" where
  "delivered Size b (Read item) =
     (case try_read Size b item of (ok, item', _) \<Rightarrow> if ok then [item'] else [])"
| "delivered Size b (ReadBatch items) =
     (case try_read_batch Size b items (length items) of (n, items', _) \<Rightarrow> take n items')"
| "delivered Size b _ = []"

fun run :: "nat \<Rightarrow> 'a SharedRingBuffer \<Rightarrow> 'a ring_op list \<Rightarrow> 'a SharedRingBuffer" where
  "run Size b [] = b"
| "run Size b (x # xs) = run Size (step Size b x) xs"

fun writes_of :: "nat \<Rightarrow> 'a SharedRingBuffer \<Rightarrow> 'a ring_op list \<Rightarrow> 'a list" where
  "writes_of Size b [] = []"
| "writes_of Size b (x # xs) = written Size b x @ writes_of Size (step Size b x) xs"

fun reads_of :: "nat \<Rightarrow> 'a SharedRingBuffer \<Rightarrow> 'a ring_op list \<Rightarrow> 'a list" where
  "reads_of Size b [] = []"
| "reads_of Size b (x # xs) = delivered Size b x @ reads_of Size (step Size b x) xs"

text \<open>
  The depth the buffer had when \<open>reset_tta_metrics\<close> was last called during a run
  (\<open>base\<close> when it was not called).
\<close>

fun depth_at_last_reset :: "nat \<Rightarrow> 'a SharedRingBuffer \<Rightarrow> u64 \<Rightarrow> 'a ring_op list \<Rightarrow> u64" where
  "depth_at_last_reset Size b base [] = base"
| "depth_at_last_reset Size b base (ResetMetrics # xs) =
     depth_at_last_reset Size (reset_tta_metrics b) (size_rb b) xs"
| "depth_at_last_reset Size b base (x # xs) = depth_at_last_reset Size (step Size b x) base xs"

text \<open>The records in flight: slots \<open>read_index .. write_index - 1\<close>, oldest first.\<close>

definition contents :: "nat \<Rightarrow> 'a SharedRingBuffer \<Rightarrow> 'a list" where
  "contents Size b =
     (case header b of
        None \<Rightarrow> []
      | Some h \<Rightarrow> map (\<lambda>i. buffer b ! slot_index Size (read_index h + of_nat i))
                      [0..<unat (write_index h - read_index h)])"

definition ring_inv :: "nat \<Rightarrow> 'a SharedRingBuffer \<Rightarrow> bool" where
  "ring_inv Size b =
     (case header b of
        None \<Rightarrow> False
      | Some h \<Rightarrow> length (buffer b) = Size \<and> unat (write_index h - read_index h) \<le> Size)"

text \<open>
  The part of the depth that the two totals do not account for; every operation but
  \<open>reset_tta_metrics\<close> leaves it unchanged.
\<close>

definition skew :: "Header \<Rightarrow> u64" where
  "skew h = (write_index h - read_index h) - (total_writes h - total_reads h)"

text \<open>A producer that calls \<open>try_write\<close> once for every record of a list, in order.\<close>

fun producer_attempts :: "nat \<Rightarrow> 'a SharedRingBuffer \<Rightarrow> 'a list \<Rightarrow> bool list \<times> 'a SharedRingBuffer" where
  "producer_attempts Size b [] = ([], b)"
| "producer_attempts Size b (x # xs) =
     (case try_write Size b x of (ok, b') \<Rightarrow>
        case producer_attempts Size b' xs of (oks, b'') \<Rightarrow> (ok # oks, b''))"

section \<open>Time-triggered task scheduler (src/quantlib/core/task\_scheduler.cpp)\<close>

text \<open>
  \<open>Duration\<close> is \<open>std::chrono::nanoseconds\<close>, a signed 64-bit tick count: a 64-bit word
  that is read with \<open>sint\<close> and compared with the signed orders \<open><s\<close> and \<open>\<le>s\<close>.  Sums and
  products are taken modulo \<open>2 ^ 64\<close>, which is what the compiled code computes where
  the standard leaves signed overflow undefined.  The callable of a task is not part of
  the schedule and is left out.
\<close>

type_synonym Duration = "64 word"

text \<open>
  \<open>a.count() / b.count()\<close> and \<open>a.count() % b.count()\<close>: the quotient is truncated towards
  zero and the remainder has the sign of the dividend.  The divisors of the scheduler
  are the basic time unit, which the constructor makes positive, and the periods of
  tasks, which validation makes positive.
\<close>

definition count_div :: "Duration \<Rightarrow> Duration \<Rightarrow> Duration" where
  "count_div a b = word_of_int (sgn (sint a) * sgn (sint b) * (\<bar>sint a\<bar> div \<bar>sint b\<bar>))"

definition count_mod :: "Duration \<Rightarrow> Duration \<Rightarrow> Duration" where
  "count_mod a b = a - count_div a b * b"

record TaskDefinition =
  name :: string
  period :: Duration
  worst_case_execution_time :: Duration
  deadline :: Duration
  priority :: int
  is_critical :: bool

text \<open>The constructor of \<open>TaskDefinition\<close>: a zero deadline means the period.\<close>

definition make_TaskDefinition ::
  "string \<Rightarrow> Duration \<Rightarrow> Duration \<Rightarrow> Duration \<Rightarrow> int \<Rightarrow> bool \<Rightarrow> TaskDefinition" where
  "make_TaskDefinition task_name per wcet dead prio critical =
     \<lparr>name = task_name, period = per, worst_case_execution_time = wcet,
      deadline = (if dead = 0 then per else dead), priority = prio, is_critical = critical\<rparr>"

record ScheduledExecution =
  task_id :: nat
  start_time :: Duration
  end_time :: Duration
  instance_number :: u64

subsection \<open>The \<open>double\<close> values of the utilization test\<close>

text \<open>
  A \<open>double\<close> is modelled by the rational it denotes, and every operation rounds its exact
  result to 53 significant bits, to nearest, ties to even (IEEE 754 binary64 in the
  default rounding mode).  The exponent is not bounded: the values that occur here,
  quotients and sums of 64-bit tick counts, are far from the overflow and the subnormal
  range of binary64.
\<close>

type_synonym double = rat

function bit_length :: "int \<Rightarrow> nat" where
  "bit_length n = (if n \<le> 0 then 0 else Suc (bit_length (n div 2)))"
  by pat_completeness auto
termination
  by (relation "measure nat") auto

declare bit_length.simps [simp del]

text \<open>\<open>ilog2 q\<close> is the exponent \<open>e\<close> with \<open>2 ^ e \<le> q < 2 ^ (e + 1)\<close>, for \<open>q > 0\<close>.\<close>

definition ilog2 :: "rat \<Rightarrow> int" where
  "ilog2 q =
     (case quotient_of q of (a, b) \<Rightarrow>
        let e0 = int (bit_length a) - int (bit_length b)
        in if 2 powi e0 \<le> q then e0 else e0 - 1)"

definition round_even :: "rat \<Rightarrow> int" where
  "round_even m =
     (let f = \<lfloor>m\<rfloor>; r = m - of_int f
      in if r < 1 / 2 then f else if 1 / 2 < r then f + 1
         else if even f then f else f + 1)"

definition fl :: "rat \<Rightarrow> double" where
  "fl q =
     (if q = 0 then 0
      else let u = 2 powi (ilog2 \<bar>q\<bar> - 52)
           in sgn q * of_int (round_even (\<bar>q\<bar> / u)) * u)"

text \<open>\<open>static_cast<double>(d.count())\<close>.\<close>

definition double_of_count :: "Duration \<Rightarrow> double" where
  "double_of_count d = fl (of_int (sint d))"

definition double_div :: "double \<Rightarrow> double \<Rightarrow> double" where
  "double_div x y = fl (x / y)"

definition double_add :: "double \<Rightarrow> double \<Rightarrow> double" where
  "double_add x y = fl (x + y)"

subsection \<open>The scheduler object\<close>

datatype conflict = No_tasks_defined | Failed_schedulability_test | Instances_not_scheduled

datatype warning = High_CPU_utilization | Long_hyperperiod

text \<open>
  The report is a plain struct that \<open>finalize_schedule\<close> default-initialises: a field the
  code has not assigned on a path is \<open>None\<close>.  The texts of conflicts and warnings are
  abstracted to tags.
\<close>

record SchedulabilityReport =
  is_schedulable :: bool
  hyperperiod :: "Duration option"
  basic_time_unit :: "Duration option"
  cpu_utilization :: "double option"
  total_executions_per_hyperperiod :: "nat option"
  conflicts :: "conflict list"
  warnings :: "warning list"

record TaskMetrics =
  executions_completed :: u64
  deadline_misses :: u64
  total_execution_time :: Duration
  max_execution_time :: Duration
  last_execution_time :: Duration

text \<open>
  The private members of \<open>TaskScheduler\<close>, \<open>basic_time_unit_\<close> and so on, are written
  \<open>m_basic_time_unit\<close>; the \<open>unordered_map\<close> from names to ids is an association list.
\<close>

record TaskScheduler =
  m_basic_time_unit :: Duration
  m_hyperperiod :: Duration
  m_task_definitions :: "TaskDefinition list"
  m_schedule_table :: "ScheduledExecution list"
  m_task_name_to_id :: "(string \<times> nat) list"
  m_is_running :: bool
  m_task_metrics :: "TaskMetrics list"

definition new_TaskScheduler :: "Duration \<Rightarrow> TaskScheduler" where
  "new_TaskScheduler btu =
     \<lparr>m_basic_time_unit = (if btu \<le>s 0 then 100000 else btu),
      m_hyperperiod = 0,
      m_task_definitions = [],
      m_schedule_table = [],
      m_task_name_to_id = [],
      m_is_running = False,
      m_task_metrics = []\<rparr>"

text \<open>
  \<open>std::lcm\<close> on two 64-bit counts.  The library divides one absolute value by the
  greatest common divisor and multiplies by the other in 64 bits, so a least common
  multiple that does not fit arrives reduced modulo \<open>2 ^ 64\<close>; nothing in
  \<open>compute_lcm\<close> or its caller looks for that.
\<close>

definition compute_lcm :: "Duration \<Rightarrow> Duration \<Rightarrow> Duration" where
  "compute_lcm a b = word_of_int (lcm (sint a) (sint b))"

text \<open>The warning for a hyperperiod above 60 s goes to \<open>stderr\<close> and changes nothing.\<close>

definition compute_hyperperiod :: "TaskScheduler \<Rightarrow> Duration" where
  "compute_hyperperiod s =
     (case m_task_definitions s of
        [] \<Rightarrow> m_basic_time_unit s
      | t # ts \<Rightarrow> foldl (\<lambda>hp task. compute_lcm hp (period task)) (period t) ts)"

text \<open>The checks in the order of the source.\<close>

definition validate_task_definition :: "TaskScheduler \<Rightarrow> TaskDefinition \<Rightarrow> bool" where
  "validate_task_definition s task =
     (if count_mod (period task) (m_basic_time_unit s) \<noteq> 0 then False
      else if period task <s worst_case_execution_time task then False
      else if period task <s deadline task then False
      else if period task \<le>s 0 then False
      else True)"

definition total_utilization :: "TaskDefinition list \<Rightarrow> double" where
  "total_utilization tasks =
     foldl (\<lambda>total task.
              double_add total
                (double_div (double_of_count (worst_case_execution_time task))
                            (double_of_count (period task))))
           0 tasks"

text \<open>
  The Liu and Layland bound only decides whether a warning goes to \<open>stderr\<close>; the result
  is the comparison with 1.0.
\<close>

definition check_schedulability :: "TaskScheduler \<Rightarrow> bool" where
  "check_schedulability s =
     (if total_utilization (m_task_definitions s) > 1 then False else True)"

definition has_timing_conflict :: "ScheduledExecution \<Rightarrow> ScheduledExecution \<Rightarrow> bool" where
  "has_timing_conflict exec1 exec2 =
     (\<not> (end_time exec1 \<le>s start_time exec2 \<or> end_time exec2 \<le>s start_time exec1))"

text \<open>
  The instances of one task within the hyperperiod.  The signed quotient
  \<open>hyperperiod / period\<close> is stored in the \<open>uint64_t\<close> that bounds the loop, and the
  product \<open>instance * period\<close> is formed in \<open>uint64_t\<close> and turned into a \<open>Duration\<close>.
\<close>

definition task_instances :: "Duration \<Rightarrow> nat \<Rightarrow> TaskDefinition \<Rightarrow> ScheduledExecution list" where
  "task_instances H tid task =
     (let executions_per_hyperperiod = count_div H (period task) :: u64
      in map (\<lambda>instance.
                \<lparr>task_id = tid,
                 start_time = of_nat instance * period task,
                 end_time = of_nat instance * period task + worst_case_execution_time task,
                 instance_number = of_nat instance\<rparr>)
             [0..<unat executions_per_hyperperiod])"

definition all_executions :: "Duration \<Rightarrow> TaskDefinition list \<Rightarrow> ScheduledExecution list" where
  "all_executions H tasks =
     concat (map (\<lambda>tid. task_instances H tid (tasks ! tid)) [0..<length tasks])"

text \<open>The two comparators handed to \<open>std::sort\<close>.\<close>

definition by_release :: "TaskDefinition list \<Rightarrow> ScheduledExecution \<Rightarrow> ScheduledExecution \<Rightarrow> bool" where
  "by_release tasks a b =
     (if start_time a = start_time b
      then priority (tasks ! task_id a) > priority (tasks ! task_id b)
      else start_time a <s start_time b)"

definition by_start :: "ScheduledExecution \<Rightarrow> ScheduledExecution \<Rightarrow> bool" where
  "by_start a b = (start_time a <s start_time b)"

text \<open>
  The search for a later slot, \<open>while (next_slot < hyperperiod_ && !found_slot)\<close>.  The
  result \<open>Some None\<close> is the loop left without a slot, \<open>Some (Some e)\<close> the loop left with
  the entry it pushed, and \<open>None\<close> a loop that does not end.
\<close>

partial_function (option) find_slot ::
  "Duration \<Rightarrow> Duration \<Rightarrow> TaskDefinition list \<Rightarrow> ScheduledExecution list \<Rightarrow>
   ScheduledExecution \<Rightarrow> Duration \<Rightarrow> ScheduledExecution option option" where
  "find_slot btu H tasks table exec next_slot =
     (if next_slot <s H then
        (let next_slot' = next_slot + btu;
             test_exec = exec\<lparr>start_time := next_slot',
                              end_time := next_slot'
                                + worst_case_execution_time (tasks ! task_id exec)\<rparr>;
             release_time = instance_number exec * period (tasks ! task_id test_exec)
         in if release_time + deadline (tasks ! task_id test_exec) <s end_time test_exec
            then Some None
            else if list_ex (has_timing_conflict test_exec) table
            then find_slot btu H tasks table exec next_slot'
            else Some (Some test_exec))
      else Some None)"

declare find_slot.simps [code]

text \<open>One round of the placement loop for the instance \<open>exec\<close>.\<close>

definition place_execution ::
  "Duration \<Rightarrow> Duration \<Rightarrow> TaskDefinition list \<Rightarrow> ScheduledExecution list \<Rightarrow>
   ScheduledExecution \<Rightarrow> ScheduledExecution list option" where
  "place_execution btu H tasks table exec =
     (if \<not> list_ex (has_timing_conflict exec) table then Some (table @ [exec])
      else case find_slot btu H tasks table exec (start_time exec) of
             None \<Rightarrow> None
           | Some None \<Rightarrow> Some table
           | Some (Some test_exec) \<Rightarrow> Some (table @ [test_exec]))"

fun place_all ::
  "Duration \<Rightarrow> Duration \<Rightarrow> TaskDefinition list \<Rightarrow> ScheduledExecution list \<Rightarrow>
   ScheduledExecution list \<Rightarrow> ScheduledExecution list option" where
  "place_all btu H tasks table [] = Some table"
| "place_all btu H tasks table (exec # execs) =
     (case place_execution btu H tasks table exec of
        None \<Rightarrow> None
      | Some table' \<Rightarrow> place_all btu H tasks table' execs)"

text \<open>
  \<open>std::sort\<close> is the parameter \<open>std_sort\<close>: the order it gives to elements that compare
  equal is not specified, and the theorems hold for every function that returns a
  permutation of its input.
\<close>

definition generate_schedule_table ::
  "((ScheduledExecution \<Rightarrow> ScheduledExecution \<Rightarrow> bool) \<Rightarrow> ScheduledExecution list \<Rightarrow> ScheduledExecution list)
   \<Rightarrow> TaskScheduler \<Rightarrow> TaskScheduler option" where
  "generate_schedule_table std_sort s =
     (if m_task_definitions s = [] then Some (s\<lparr>m_schedule_table := []\<rparr>)
      else
        case place_all (m_basic_time_unit s) (m_hyperperiod s) (m_task_definitions s) []
               (std_sort (by_release (m_task_definitions s))
                  (all_executions (m_hyperperiod s) (m_task_definitions s))) of
          None \<Rightarrow> None
        | Some table \<Rightarrow> Some (s\<lparr>m_schedule_table := std_sort by_start table\<rparr>))"

definition add_task :: "TaskScheduler \<Rightarrow> TaskDefinition \<Rightarrow> bool \<times> TaskScheduler" where
  "add_task s task =
     (if m_is_running s then (False, s)
      else if map_of (m_task_name_to_id s) (name task) \<noteq> None then (False, s)
      else if \<not> validate_task_definition s task then (False, s)
      else (True,
            s\<lparr>m_task_definitions := m_task_definitions s @ [task],
              m_task_name_to_id := (name task, length (m_task_definitions s)) # m_task_name_to_id s,
              m_task_metrics := m_task_metrics s @
                [\<lparr>executions_completed = 0, deadline_misses = 0, total_execution_time = 0,
                  max_execution_time = 0, last_execution_time = 0\<rparr>]\<rparr>))"

text \<open>
  The \<open>size_t\<close> sum of the signed quotients \<open>hyperperiod / period\<close>, which the size of the
  table is compared with.
\<close>

definition expected_executions :: "Duration \<Rightarrow> TaskDefinition list \<Rightarrow> u64" where
  "expected_executions H tasks = foldl (\<lambda>n task. n + count_div H (period task)) 0 tasks"

definition finalize_schedule ::
  "((ScheduledExecution \<Rightarrow> ScheduledExecution \<Rightarrow> bool) \<Rightarrow> ScheduledExecution list \<Rightarrow> ScheduledExecution list)
   \<Rightarrow> TaskScheduler \<Rightarrow> (SchedulabilityReport \<times> TaskScheduler) option" where
  "finalize_schedule std_sort s =
     (let report = \<lparr>is_schedulable = False, hyperperiod = None, basic_time_unit = None,
                     cpu_utilization = None, total_executions_per_hyperperiod = None,
                     conflicts = [], warnings = []\<rparr>
      in if m_task_definitions s = []
         then Some (report\<lparr>conflicts := [No_tasks_defined]\<rparr>, s)
         else
           let s1 = s\<lparr>m_hyperperiod := compute_hyperperiod s\<rparr>;
               report1 = report\<lparr>hyperperiod := Some (m_hyperperiod s1),
                                basic_time_unit := Some (m_basic_time_unit s1)\<rparr>
           in if \<not> check_schedulability s1
              then Some (report1\<lparr>conflicts := [Failed_schedulability_test]\<rparr>, s1)
              else
                case generate_schedule_table std_sort s1 of
                  None \<Rightarrow> None
                | Some s2 \<Rightarrow>
                    let utilization = total_utilization (m_task_definitions s2);
                        report2 = report1\<lparr>cpu_utilization := Some utilization,
                                    total_executions_per_hyperperiod :=
                                      Some (length (m_schedule_table s2))\<rparr>
                    in if of_nat (length (m_schedule_table s2))
                            < expected_executions (m_hyperperiod s2) (m_task_definitions s2)
                       then Some (report2\<lparr>conflicts := [Instances_not_scheduled]\<rparr>, s2)
                       else Some (report2\<lparr>is_schedulable := True,
                                    warnings :=
                                      (if utilization > fl (4 / 5) then [High_CPU_utilization] else [])
                                      @ (if 10000000000 <s m_hyperperiod s2 then [Long_hyperperiod] else [])\<rparr>,
                                  s2))"

text \<open>A stable insertion sort, one function that \<open>std::sort\<close> may be.\<close>

fun insert_by :: "('a \<Rightarrow> 'a \<Rightarrow> bool) \<Rightarrow> 'a \<Rightarrow> 'a list \<Rightarrow> 'a list" where
  "insert_by lt x [] = [x]"
| "insert_by lt x (y # ys) = (if lt x y then x # y # ys else y # insert_by lt x ys)"

definition insertion_sort :: "('a \<Rightarrow> 'a \<Rightarrow> bool) \<Rightarrow> 'a list \<Rightarrow> 'a list" where
  "insertion_sort lt xs = foldr (insert_by lt) xs []"

text \<open>The exact total utilization, the sum of \<open>WCET / period\<close> over the tasks.\<close>

definition exact_utilization :: "TaskDefinition list \<Rightarrow> rat" where
  "exact_utilization tasks =
     (\<Sum>task\<leftarrow>tasks. of_int (sint (worst_case_execution_time task)) / of_int (sint (period task)))"

text \<open>The least common multiple of the periods, as a number.\<close>

definition exact_hyperperiod :: "TaskDefinition list \<Rightarrow> int" where
  "exact_hyperperiod tasks = foldl (\<lambda>h task. lcm h (sint (period task))) 1 tasks"

text \<open>
  The state of a scheduler that was constructed and filled through \<open>add_task\<close>: the
  basic time unit is positive and every task has passed validation.
\<close>

definition configured :: "TaskScheduler \<Rightarrow> bool" where
  "configured s =
     (0 <s m_basic_time_unit s \<and> list_all (validate_task_definition s) (m_task_definitions s))"

subsection \<open>Schedulers used by the scheduler theorems\<close>

text \<open>
  All three have a basic time unit that divides every period, and every task passes
  \<open>add_task\<close>.  The first is a single task with \<open>WCET = period = deadline\<close> = 10 ms on a
  basic time unit of 1 ms.  The other two have a basic time unit of 1 ns and two tasks
  with coprime periods, so that the least common multiple of the periods is their
  product: periods \<open>2 ^ 54 - 1\<close> and \<open>2 ^ 54 + 1\<close> ns (about 208 days each), the first task
  running for its whole period and the second for 1 ns; and periods \<open>2 ^ 32 + 1\<close> and
  \<open>2 ^ 32 - 1\<close> ns (about 4.3 s each), both tasks running for 1 ns.
\<close>

definition full_task_scheduler :: TaskScheduler where
  "full_task_scheduler =
     snd (add_task (new_TaskScheduler 1000000)
            (make_TaskDefinition ''A'' 10000000 10000000 0 0 False))"

definition long_period_scheduler :: TaskScheduler where
  "long_period_scheduler =
     snd (add_task (snd (add_task (new_TaskScheduler 1)
            (make_TaskDefinition ''A'' 18014398509481983 18014398509481983 0 0 False)))
          (make_TaskDefinition ''B'' 18014398509481985 1 0 0 False))"

definition coprime_period_scheduler :: TaskScheduler where
  "coprime_period_scheduler =
     snd (add_task (snd (add_task (new_TaskScheduler 1)
            (make_TaskDefinition ''A'' 4294967297 1 0 0 False)))
          (make_TaskDefinition ''B'' 4294967295 1 0 0 False))"

section \<open>Memory pool (src/quantlib/core/memory\_pool.cpp)\<close>

text \<open>
  \<open>size_t\<close> and addresses are 64-bit words; the null pointer is the address 0.  A
  member \<open>size\<close> is written \<open>size_blk\<close> or \<open>size_chunk\<close>.  The block headers live in
  the mapped memory, which the model keeps as the function \<open>heap\<close> from the address of
  a header to its fields.
\<close>

type_synonym size_t = "64 word"
type_synonym ptr = "64 word"

definition nullptr :: ptr where
  "nullptr = 0"

record Block =
  size_blk :: size_t
  size_class :: size_t
  is_free :: bool
  next_free :: ptr
  magic :: "32 word"

definition MAGIC :: "32 word" where
  "MAGIC = 0xDEADBEEF"

text \<open>
  \<open>sizeof(Block)\<close> on an LP64 target: two \<open>size_t\<close>, a \<open>bool\<close> padded to 8 bytes, a
  pointer, and a \<open>uint32_t\<close> padded to 8 bytes.
\<close>

definition sizeof_Block :: size_t where
  "sizeof_Block = 40"

definition NUM_SIZE_CLASSES :: size_t where
  "NUM_SIZE_CLASSES = 16"

definition MIN_ALLOCATION_SIZE :: size_t where
  "MIN_ALLOCATION_SIZE = 64"

text \<open>The constructor \<open>Block(sz, sc)\<close> and the member \<open>data()\<close>.\<close>

definition new_Block :: "size_t \<Rightarrow> size_t \<Rightarrow> Block" where
  "new_Block sz sc = \<lparr>size_blk = sz, size_class = sc, is_free = True,
                       next_free = nullptr, magic = MAGIC\<rparr>"

definition data :: "ptr \<Rightarrow> ptr" where
  "data block = block + sizeof_Block"

definition is_valid :: "Block \<Rightarrow> bool" where
  "is_valid b = (magic b = MAGIC)"

record Chunk =
  memory :: ptr
  size_chunk :: size_t
  used :: size_t
  is_arena_chunk :: bool

text \<open>
  The operating system: \<open>mmap_results\<close> holds what the coming calls of \<open>mmap\<close> return,
  \<open>None\<close> for \<open>MAP_FAILED\<close>, and an exhausted list fails too; \<open>page_size\<close> is the
  \<open>long\<close> that \<open>sysconf(_SC_PAGE_SIZE)\<close> returns.
\<close>

record OS =
  mmap_results :: "ptr option list"
  page_size :: int

definition mmap :: "OS \<Rightarrow> ptr option \<times> OS" where
  "mmap os = (case mmap_results os of
                [] \<Rightarrow> (None, os)
              | r # rs \<Rightarrow> (r, os\<lparr>mmap_results := rs\<rparr>))"

text \<open>What leaves a function other than by \<open>return\<close>.\<close>

datatype failure = bad_alloc | runtime_error | assertion_failed

text \<open>The constructor of \<open>Chunk\<close> throws \<open>std::bad_alloc\<close> when \<open>mmap\<close> fails.\<close>

definition new_Chunk :: "OS \<Rightarrow> size_t \<Rightarrow> bool \<Rightarrow> (failure + Chunk) \<times> OS" where
  "new_Chunk os sz is_arena =
     (case mmap os of
        (None, os') \<Rightarrow> (Inl bad_alloc, os')
      | (Some m, os') \<Rightarrow>
          (Inr \<lparr>memory = m, size_chunk = sz, used = 0, is_arena_chunk = is_arena\<rparr>, os'))"

definition align_up :: "size_t \<Rightarrow> size_t \<Rightarrow> size_t" where
  "align_up v alignment = (v + alignment - 1) AND NOT (alignment - 1)"

definition is_power_of_two :: "size_t \<Rightarrow> bool" where
  "is_power_of_two v = (v \<noteq> 0 \<and> v AND (v - 1) = 0)"

record MemoryPool =
  chunks :: "Chunk list"
  free_lists :: "ptr list"
  heap :: "ptr \<Rightarrow> Block"
  default_chunk_size :: size_t
  total_allocated :: size_t
  total_free :: size_t
  allocation_count :: size_t
  deallocation_count :: size_t

text \<open>The loop of \<open>get_size_class\<close>; the last argument counts the rounds left.\<close>

fun size_class_loop :: "size_t \<Rightarrow> size_t \<Rightarrow> size_t \<Rightarrow> nat \<Rightarrow> size_t" where
  "size_class_loop sz current_class_size sc 0 = NUM_SIZE_CLASSES - 1"
| "size_class_loop sz current_class_size sc (Suc n) =
     (if sz \<le> current_class_size then sc
      else size_class_loop sz (current_class_size * 2) (sc + 1) n)"

definition get_size_class :: "size_t \<Rightarrow> size_t" where
  "get_size_class sz =
     (if sz = 0 then 0
      else if sz < MIN_ALLOCATION_SIZE then 0
      else size_class_loop sz MIN_ALLOCATION_SIZE 0 (unat NUM_SIZE_CLASSES - 1))"

definition get_size_for_class :: "size_t \<Rightarrow> size_t" where
  "get_size_for_class sc =
     push_bit (unat (if sc \<ge> NUM_SIZE_CLASSES then NUM_SIZE_CLASSES - 1 else sc))
              MIN_ALLOCATION_SIZE"

text \<open>
  \<open>add_block_to_free_list\<close>: the \<open>assert\<close> on the block is the failure
  \<open>assertion_failed\<close>.
\<close>

definition add_block_to_free_list :: "MemoryPool \<Rightarrow> ptr \<Rightarrow> failure + MemoryPool" where
  "add_block_to_free_list pool block =
     (if block = nullptr \<or> \<not> is_valid (heap pool block) then Inl assertion_failed
      else
        let b = (heap pool block)\<lparr>is_free := True\<rparr>;
            sc = unat (min (size_class b) (NUM_SIZE_CLASSES - 1))
        in Inr (pool\<lparr>heap := (heap pool)(block := b\<lparr>next_free := free_lists pool ! sc\<rparr>),
                      free_lists := (free_lists pool)[sc := block]\<rparr>))"

definition split_block :: "MemoryPool \<Rightarrow> ptr \<Rightarrow> size_t \<Rightarrow> failure + (ptr \<times> MemoryPool)" where
  "split_block pool block_to_split required_data_size =
     (if block_to_split = nullptr \<or> \<not> is_valid (heap pool block_to_split)
      then Inl assertion_failed
      else
        let remaining_data_size = size_blk (heap pool block_to_split) - required_data_size
        in if remaining_data_size \<ge> sizeof_Block + MIN_ALLOCATION_SIZE
           then
             let remainder_block_header = data block_to_split + required_data_size;
                 remainder_block_data_size = remaining_data_size - sizeof_Block;
                 pool1 = pool\<lparr>heap := (heap pool)(remainder_block_header :=
                           new_Block remainder_block_data_size
                                     (get_size_class remainder_block_data_size))\<rparr>
             in case add_block_to_free_list pool1 remainder_block_header of
                  Inl e \<Rightarrow> Inl e
                | Inr pool2 \<Rightarrow>
                    Inr (block_to_split,
                         pool2\<lparr>heap := (heap pool2)(block_to_split :=
                            (heap pool2 block_to_split)
                              \<lparr>size_blk := required_data_size,
                               size_class := get_size_class required_data_size,
                               is_free := False,
                               next_free := nullptr\<rparr>)\<rparr>)
           else Inr (block_to_split,
                     pool\<lparr>heap := (heap pool)(block_to_split :=
                        (heap pool block_to_split)\<lparr>is_free := False, next_free := nullptr\<rparr>)\<rparr>))"

text \<open>
  The search of \<open>allocate_from_size_class\<close> through the larger classes, from
  \<open>larger_sc\<close> on; the last argument counts the classes left.
\<close>

fun larger_class_loop ::
  "MemoryPool \<Rightarrow> size_t \<Rightarrow> nat \<Rightarrow> nat \<Rightarrow> failure + (ptr \<times> MemoryPool)" where
  "larger_class_loop pool sc larger_sc 0 = Inr (nullptr, pool)"
| "larger_class_loop pool sc larger_sc (Suc n) =
     (if free_lists pool ! larger_sc \<noteq> nullptr
      then
        let large_block = free_lists pool ! larger_sc;
            pool1 = pool\<lparr>free_lists :=
                      (free_lists pool)[larger_sc := next_free (heap pool large_block)]\<rparr>
        in split_block pool1 large_block (get_size_for_class sc)
      else larger_class_loop pool sc (Suc larger_sc) n)"

definition allocate_from_size_class ::
  "MemoryPool \<Rightarrow> size_t \<Rightarrow> failure + (ptr \<times> MemoryPool)" where
  "allocate_from_size_class pool sc =
     (if sc \<ge> NUM_SIZE_CLASSES then Inr (nullptr, pool)
      else if free_lists pool ! unat sc \<noteq> nullptr
      then
        let block = free_lists pool ! unat sc
        in Inr (block,
                pool\<lparr>free_lists := (free_lists pool)[unat sc := next_free (heap pool block)],
                     heap := (heap pool)(block :=
                        (heap pool block)\<lparr>next_free := nullptr, is_free := False\<rparr>)\<rparr>)
      else larger_class_loop pool sc (unat sc + 1) (unat NUM_SIZE_CLASSES - (unat sc + 1)))"

definition add_chunk :: "MemoryPool \<Rightarrow> OS \<Rightarrow> size_t \<Rightarrow> (failure + MemoryPool) \<times> OS" where
  "add_chunk pool os min_data_size =
     (let size_for_block_and_data = min_data_size + sizeof_Block;
          chunk_size_to_request0 = max size_for_block_and_data (default_chunk_size pool);
          page_size_long = (if page_size os \<le> 0 then 4096 else page_size os);
          chunk_size_to_request = align_up chunk_size_to_request0 (word_of_int page_size_long)
      in case new_Chunk os chunk_size_to_request False of
           (Inl e, os') \<Rightarrow> (Inl e, os')
         | (Inr new_os_chunk, os') \<Rightarrow>
             if chunk_size_to_request < sizeof_Block then (Inl runtime_error, os')
             else
               let initial_block_header = memory new_os_chunk;
                   initial_block_data_size = chunk_size_to_request - sizeof_Block;
                   pool1 = pool\<lparr>heap := (heap pool)(initial_block_header :=
                             new_Block initial_block_data_size
                                       (get_size_class initial_block_data_size))\<rparr>
               in case add_block_to_free_list pool1 initial_block_header of
                    Inl e \<Rightarrow> (Inl e, os')
                  | Inr pool2 \<Rightarrow>
                      (Inr (pool2\<lparr>total_free := total_free pool2 + initial_block_data_size,
                                  chunks := chunks pool2
                                    @ [new_os_chunk\<lparr>used := chunk_size_to_request\<rparr>]\<rparr>),
                       os'))"

text \<open>
  \<open>std::align(alignment, size, ptr, space)\<close> as libstdc++ has it: the aligned address,
  or the null pointer when the space left after the padding is too small.
\<close>

definition std_align :: "size_t \<Rightarrow> size_t \<Rightarrow> ptr \<Rightarrow> size_t \<Rightarrow> ptr" where
  "std_align alignment sz p space =
     (if space < sz then nullptr
      else
        let aligned = (p - 1 + alignment) AND (- alignment);
            diff = aligned - p
        in if diff > space - sz then nullptr else aligned)"

text \<open>
  \<open>allocate\<close> returns the pointer, or is left by an exception: it has no handler, so
  what \<open>add_chunk\<close> throws goes on to the caller.
\<close>

definition allocate ::
  "MemoryPool \<Rightarrow> OS \<Rightarrow> size_t \<Rightarrow> size_t \<Rightarrow> (failure + ptr) \<times> MemoryPool \<times> OS" where
  "allocate pool os size_bytes alignment_bytes0 =
     (if size_bytes = 0 then (Inr nullptr, pool, os)
      else
        let alignment_bytes =
              (if \<not> is_power_of_two alignment_bytes0
               then (if \<not> is_power_of_two MIN_ALLOCATION_SIZE then 64 else MIN_ALLOCATION_SIZE)
               else alignment_bytes0);
            effective_size_needed0 = size_bytes + alignment_bytes - 1;
            effective_size_needed =
              (if effective_size_needed0 < size_bytes then size_bytes else effective_size_needed0);
            sc = get_size_class effective_size_needed;
            finish = (\<lambda>block_header pool1 os1.
              if block_header = nullptr \<or> \<not> is_valid (heap pool1 block_header)
                 \<or> is_free (heap pool1 block_header)
              then (Inl assertion_failed, pool1, os1)
              else if \<not> (size_blk (heap pool1 block_header) \<ge> effective_size_needed
                         \<or> size_blk (heap pool1 block_header) \<ge> size_bytes)
              then (Inl assertion_failed, pool1, os1)
              else
                let aligned_user_ptr =
                      std_align alignment_bytes size_bytes (data block_header)
                                (size_blk (heap pool1 block_header))
                in if aligned_user_ptr = nullptr
                   then (case add_block_to_free_list pool1 block_header of
                           Inl e \<Rightarrow> (Inl e, pool1, os1)
                         | Inr pool2 \<Rightarrow>
                             (Inr nullptr,
                              pool2\<lparr>heap := (heap pool2)(block_header :=
                                 (heap pool2 block_header)\<lparr>is_free := True\<rparr>)\<rparr>, os1))
                   else
                     let sz = size_blk (heap pool1 block_header)
                     in (Inr aligned_user_ptr,
                         pool1\<lparr>total_allocated := total_allocated pool1 + sz,
                               total_free := (if total_free pool1 \<ge> sz
                                              then total_free pool1 - sz else 0),
                               allocation_count := allocation_count pool1 + 1\<rparr>,
                         os1))
        in case allocate_from_size_class pool sc of
             Inl e \<Rightarrow> (Inl e, pool, os)
           | Inr (block_header, pool1) \<Rightarrow>
               if block_header = nullptr
               then (case add_chunk pool1 os (sizeof_Block + effective_size_needed) of
                       (Inl e, os1) \<Rightarrow> (Inl e, pool1, os1)
                     | (Inr pool2, os1) \<Rightarrow>
                         (case allocate_from_size_class pool2 sc of
                            Inl e \<Rightarrow> (Inl e, pool2, os1)
                          | Inr (block_header2, pool3) \<Rightarrow>
                              if block_header2 = nullptr then (Inr nullptr, pool3, os1)
                              else finish block_header2 pool3 os1))
               else finish block_header pool1 os)"

text \<open>
  \<open>allocate_arena\<close>, the sibling that maps a whole chunk: it catches
  \<open>std::bad_alloc\<close> and returns the null pointer.
\<close>

definition allocate_arena ::
  "MemoryPool \<Rightarrow> OS \<Rightarrow> size_t \<Rightarrow> (failure + ptr) \<times> MemoryPool \<times> OS" where
  "allocate_arena pool os size_bytes =
     (if size_bytes = 0 then (Inr nullptr, pool, os)
      else case new_Chunk os size_bytes True of
             (Inl bad_alloc, os') \<Rightarrow> (Inr nullptr, pool, os')
           | (Inl e, os') \<Rightarrow> (Inl e, pool, os')
           | (Inr chunk, os') \<Rightarrow>
               (Inr (memory chunk),
                pool\<lparr>total_allocated := total_allocated pool + size_bytes,
                     allocation_count := allocation_count pool + 1,
                     chunks := chunks pool @ [chunk\<lparr>used := size_bytes\<rparr>]\<rparr>,
                os'))"

text \<open>
  The constructor \<open>MemoryPool(initial_size_bytes)\<close>; \<open>mem\<close> is what the mapped memory
  holds before the pool writes to it.
\<close>

definition new_MemoryPool ::
  "(ptr \<Rightarrow> Block) \<Rightarrow> OS \<Rightarrow> size_t \<Rightarrow> (failure + MemoryPool) \<times> OS" where
  "new_MemoryPool mem os initial_size_bytes =
     (let pool = \<lparr>chunks = [], free_lists = replicate (unat NUM_SIZE_CLASSES) nullptr,
                   heap = mem, default_chunk_size = 16 * 1024 * 1024,
                   total_allocated = 0, total_free = 0,
                   allocation_count = 0, deallocation_count = 0\<rparr>
      in if initial_size_bytes > 0 then add_chunk pool os initial_size_bytes
         else (Inr pool, os))"

text \<open>A pool without chunks, and an operating system that has no memory to map.\<close>

definition empty_pool :: MemoryPool where
  "empty_pool =
     \<lparr>chunks = [], free_lists = replicate 16 nullptr,
      heap = (\<lambda>_. \<lparr>size_blk = 0, size_class = 0, is_free = False, next_free = 0, magic = 0\<rparr>),
      default_chunk_size = 16 * 1024 * 1024,
      total_allocated = 0, total_free = 0, allocation_count = 0, deallocation_count = 0\<rparr>"

definition exhausted_os :: OS where
  "exhausted_os = \<lparr>mmap_results = [], page_size = 4096\<rparr>"

section \<open>Event logger (src/quantlib/core/event\_log.cpp)\<close>

type_synonym byte = "8 word"
type_synonym u32 = "32 word"

datatype EventType =
    UNKNOWN
  | MARKET_DATA_UPDATE
  | TRADING_SIGNAL_GENERATED
  | CONTROL_MESSAGE_RECEIVED
  | STRATEGY_PARAMETER_CHANGE
  | VOLATILITY_MODEL_UPDATE
  | PRICING_ENGINE_REQUEST
  | PRICING_ENGINE_RESULT
  | ORDER_EVENT_FROM_EXCHANGE
  | SYSTEM_STATUS_CHANGE
  | PERFORMANCE_METRIC_LOG
  | ERROR_LOG
  | WARNING_LOG
  | INFO_LOG
  | DEBUG_LOG
  | CUSTOM_STRATEGY_EVENT

text \<open>The value of an enumerator, \<open>static_cast<uint32_t>(type)\<close>.\<close>

fun event_type_value :: "EventType \<Rightarrow> u32" where
  "event_type_value UNKNOWN = 0"
| "event_type_value MARKET_DATA_UPDATE = 1"
| "event_type_value TRADING_SIGNAL_GENERATED = 2"
| "event_type_value CONTROL_MESSAGE_RECEIVED = 3"
| "event_type_value STRATEGY_PARAMETER_CHANGE = 4"
| "event_type_value VOLATILITY_MODEL_UPDATE = 5"
| "event_type_value PRICING_ENGINE_REQUEST = 6"
| "event_type_value PRICING_ENGINE_RESULT = 7"
| "event_type_value ORDER_EVENT_FROM_EXCHANGE = 8"
| "event_type_value SYSTEM_STATUS_CHANGE = 9"
| "event_type_value PERFORMANCE_METRIC_LOG = 10"
| "event_type_value ERROR_LOG = 11"
| "event_type_value WARNING_LOG = 12"
| "event_type_value INFO_LOG = 13"
| "event_type_value DEBUG_LOG = 14"
| "event_type_value CUSTOM_STRATEGY_EVENT = 100"

record EventHeader =
  timestamp_ns :: u64
  sequence_number :: u64
  event_type :: EventType
  data_size_bytes :: u32
  data_checksum :: u32

text \<open>\<open>sizeof(EventHeader)\<close>: 28 bytes of fields, padded to the alignment of 8.\<close>

definition sizeof_EventHeader :: nat where
  "sizeof_EventHeader = 32"

subsection \<open>The checksum\<close>

definition crc_bit :: "u32 \<Rightarrow> u32" where
  "crc_bit crc = (if crc AND 1 \<noteq> 0 then drop_bit 1 crc XOR 0xEDB88320 else drop_bit 1 crc)"

definition crc_byte :: "u32 \<Rightarrow> byte \<Rightarrow> u32" where
  "crc_byte crc b = (crc_bit ^^ 8) (crc XOR ucast b)"

definition internal_calculate_checksum_eventlog :: "byte list \<Rightarrow> u32" where
  "internal_calculate_checksum_eventlog buf = foldl crc_byte 0xFFFFFFFF buf XOR 0xFFFFFFFF"

subsection \<open>The stream and the lines of the text format\<close>

text \<open>
  What the logger has put into the file, record by record.  A frame keeps the header
  it was made from; its body is the payload (binary format) or the line (text format).
\<close>

datatype frame_body = Binary_payload "byte list" | Text_line "byte list"

datatype file_record = Binary_magic | Text_header | Frame EventHeader frame_body

record ofstream =
  is_open :: bool
  good :: bool
  file_records :: "file_record list"

text \<open>Characters as bytes, and \<open>operator<<\<close> for unsigned numbers in decimal.\<close>

definition ascii :: "string \<Rightarrow> byte list" where
  "ascii s = map (\<lambda>c. of_nat (of_char c)) s"

function decimal :: "nat \<Rightarrow> byte list" where
  "decimal n = (if n < 10 then [of_nat (48 + n)] else decimal (n div 10) @ [of_nat (48 + n mod 10)])"
  by pat_completeness auto
termination
  by (relation "measure id") auto

declare decimal.simps [simp del]

definition hex_digit :: "nat \<Rightarrow> byte" where
  "hex_digit d = (if d < 10 then of_nat (48 + d) else of_nat (87 + d))"

text \<open>\<open>std::hex\<close>, \<open>std::setfill('0')\<close> and \<open>std::setw(2)\<close> on one byte.\<close>

definition hex_byte :: "byte \<Rightarrow> byte list" where
  "hex_byte b = [hex_digit (unat b div 16), hex_digit (unat b mod 16)]"

definition is_text_event :: "EventType \<Rightarrow> bool" where
  "is_text_event type =
     (type = SYSTEM_STATUS_CHANGE \<or> type = ERROR_LOG \<or> type = WARNING_LOG \<or>
      type = INFO_LOG \<or> type = DEBUG_LOG)"

definition text_line :: "EventHeader \<Rightarrow> byte list option \<Rightarrow> nat \<Rightarrow> byte list" where
  "text_line h data_payload payload_size =
     decimal (unat (timestamp_ns h)) @ ascii '','' @
     decimal (unat (sequence_number h)) @ ascii '','' @
     decimal (unat (event_type_value (event_type h))) @ ascii '','' @
     decimal (unat (data_size_bytes h)) @ ascii '','' @
     decimal (unat (data_checksum h)) @ ascii '','' @
     (case data_payload of
        None \<Rightarrow> []
      | Some bytes \<Rightarrow>
          if payload_size > 0
          then (if is_text_event (event_type h)
                then [34] @ take payload_size bytes @ [34]
                else concat (map hex_byte (take payload_size bytes)))
          else []) @
     [10]"

subsection \<open>The logger\<close>

text \<open>
  The members of the class, and with them \<open>closed_files\<close>: what the logger has put into
  the files it has closed, oldest first.
\<close>

record EventLogger =
  log_file_stream :: ofstream
  current_sequence_number :: u64
  use_binary_format :: bool
  total_events_logged_count :: u64
  total_bytes_written_count :: u64
  closed_files :: "file_record list list"

definition text_header_lines :: "byte list" where
  "text_header_lines =
     ascii ''# Alaris Event Log V1.0 (Text Format)'' @ [10] @
     ascii ''# Timestamp(ns),Sequence,EventType,DataSize,Checksum,Payload(Hex)'' @ [10]"

text \<open>
  The constructor, for a file that could be opened (it throws otherwise);
  \<open>file_is_empty\<close> is the test \<open>tellp() == 0\<close>.
\<close>

definition new_EventLogger :: "bool \<Rightarrow> bool \<Rightarrow> EventLogger" where
  "new_EventLogger binary_mode file_is_empty =
     \<lparr>log_file_stream =
        \<lparr>is_open = True, good = True,
         file_records = (if file_is_empty
                         then [if binary_mode then Binary_magic else Text_header] else [])\<rparr>,
      current_sequence_number = 0,
      use_binary_format = binary_mode,
      total_events_logged_count = 0,
      total_bytes_written_count =
        (if file_is_empty
         then (if binary_mode then 13 else of_nat (length text_header_lines)) else 0),
      closed_files = []\<rparr>"

text \<open>
  \<open>write_log_entry(type, data_payload, payload_size)\<close>; \<open>now\<close> is the reading of the
  clock, \<open>data_payload\<close> is \<open>None\<close> for a null pointer and otherwise holds at least
  \<open>payload_size\<close> bytes.  The sequence number is taken, and the counter advanced, before
  the stream is looked at.
\<close>

definition write_log_entry ::
  "EventLogger \<Rightarrow> u64 \<Rightarrow> EventType \<Rightarrow> byte list option \<Rightarrow> nat \<Rightarrow> EventLogger" where
  "write_log_entry lg now type data_payload payload_size =
     (let header = \<lparr>timestamp_ns = now,
                     sequence_number = current_sequence_number lg,
                     event_type = type,
                     data_size_bytes = of_nat payload_size,
                     data_checksum =
                       (case data_payload of
                          None \<Rightarrow> 0
                        | Some bytes \<Rightarrow>
                            if payload_size > 0
                            then internal_calculate_checksum_eventlog (take payload_size bytes)
                            else 0)\<rparr>;
          lg1 = lg\<lparr>current_sequence_number := current_sequence_number lg + 1\<rparr>;
          stream = log_file_stream lg1
      in if \<not> is_open stream \<or> \<not> good stream then lg1
         else
           let body = (if use_binary_format lg1
                       then Binary_payload (case data_payload of
                                              None \<Rightarrow> []
                                            | Some bytes \<Rightarrow> take payload_size bytes)
                       else Text_line (text_line header data_payload payload_size));
               bytes_written_this_event =
                 (if use_binary_format lg1 then sizeof_EventHeader + payload_size
                  else length (text_line header data_payload payload_size))
           in lg1\<lparr>log_file_stream := stream\<lparr>file_records := file_records stream @ [Frame header body]\<rparr>,
                   total_events_logged_count := total_events_logged_count lg1 + 1,
                   total_bytes_written_count :=
                     total_bytes_written_count lg1 + of_nat bytes_written_this_event\<rparr>)"

text \<open>
  \<open>rotate_log_file(new_filename)\<close>: the open file is closed and the new one opened for
  appending.  \<open>opened\<close> says whether the new file could be opened, and
  \<open>file_is_empty\<close> is the test \<open>tellp() == 0\<close>.  A successful \<open>open\<close> clears the error
  state of the stream; a failed one sets it, and the function throws
  \<open>std::runtime_error\<close>, leaving the logger with a closed stream.  The counters are not
  touched.
\<close>

definition rotate_log_file :: "EventLogger \<Rightarrow> bool \<Rightarrow> bool \<Rightarrow> failure option \<times> EventLogger" where
  "rotate_log_file lg opened file_is_empty =
     (let lg1 = (if is_open (log_file_stream lg)
                 then lg\<lparr>closed_files := closed_files lg @ [file_records (log_file_stream lg)],
                         log_file_stream :=
                           (log_file_stream lg)\<lparr>is_open := False, file_records := []\<rparr>\<rparr>
                 else lg)
      in if \<not> opened
         then (Some runtime_error,
               lg1\<lparr>log_file_stream := (log_file_stream lg1)\<lparr>good := False\<rparr>\<rparr>)
         else (None,
               lg1\<lparr>log_file_stream :=
                     \<lparr>is_open = True, good = True,
                      file_records =
                        (if file_is_empty
                         then [if use_binary_format lg1 then Binary_magic else Text_header]
                         else [])\<rparr>\<rparr>))"

subsection \<open>Runs of a logger\<close>

text \<open>
  A run is a sequence of calls of \<open>write_log_entry\<close> and \<open>rotate_log_file\<close>, between which
  the stream may enter its error state (a failed write, a full disk).  An exception of
  \<open>rotate_log_file\<close> goes to its caller, and the run goes on with the logger as the call
  has left it.
\<close>

datatype log_event =
    Write_entry u64 EventType "byte list option" nat
  | Rotate_log_file bool bool
  | Stream_error

fun log_step :: "EventLogger \<Rightarrow> log_event \<Rightarrow> EventLogger" where
  "log_step lg (Write_entry now type data_payload payload_size) =
     write_log_entry lg now type data_payload payload_size"
| "log_step lg (Rotate_log_file opened file_is_empty) =
     snd (rotate_log_file lg opened file_is_empty)"
| "log_step lg Stream_error = lg\<lparr>log_file_stream := (log_file_stream lg)\<lparr>good := False\<rparr>\<rparr>"

fun log_run :: "EventLogger \<Rightarrow> log_event list \<Rightarrow> EventLogger" where
  "log_run lg [] = lg"
| "log_run lg (e # es) = log_run (log_step lg e) es"

text \<open>
  For every call of a run, the sequence number the call assigns and whether the frame
  is written.
\<close>

fun assigned :: "EventLogger \<Rightarrow> log_event list \<Rightarrow> (u64 \<times> bool) list" where
  "assigned lg [] = []"
| "assigned lg (Write_entry now type data_payload payload_size # es) =
     (current_sequence_number lg, is_open (log_file_stream lg) \<and> good (log_file_stream lg))
       # assigned (write_log_entry lg now type data_payload payload_size) es"
| "assigned lg (e # es) = assigned (log_step lg e) es"

fun is_call :: "log_event \<Rightarrow> bool" where
  "is_call (Write_entry now type data_payload payload_size) = True"
| "is_call _ = False"

text \<open>
  The sequence numbers of the frames among some records, in their order, and of all the
  frames a logger has written, those of the closed files first.
\<close>

fun frame_sequence_numbers :: "file_record list \<Rightarrow> u64 list" where
  "frame_sequence_numbers [] = []"
| "frame_sequence_numbers (Frame h body # rs) = sequence_number h # frame_sequence_numbers rs"
| "frame_sequence_numbers (r # rs) = frame_sequence_numbers rs"

definition written_sequence_numbers :: "EventLogger \<Rightarrow> u64 list" where
  "written_sequence_numbers lg =
     frame_sequence_numbers (concat (closed_files lg) @ file_records (log_file_stream lg))"

text \<open>
  A run of four calls: the stream fails after the first, two frames are dropped, and the
  file is rotated before the fourth.
\<close>

definition sample_log_events :: "log_event list" where
  "sample_log_events =
     [Write_entry 1000 INFO_LOG (Some (ascii ''up'')) 2,
      Stream_error,
      Write_entry 2000 MARKET_DATA_UPDATE (Some [1, 2, 3]) 3,
      Write_entry 3000 ERROR_LOG None 0,
      Rotate_log_file True True,
      Write_entry 4000 INFO_LOG (Some (ascii ''ok'')) 2]"

section \<open>Ring buffer: index arithmetic\<close>

lemma MASK_pow2: "k \<le> 64 \<Longrightarrow> MASK (2 ^ k) = mask k"
  unfolding MASK_def
  by (simp add: mask_eq_exp_minus_1 of_nat_diff)

lemma slot_index_mod:
  assumes "k < 64"
  shows "slot_index (2 ^ k) (r + of_nat i) = (unat r + i) mod 2 ^ k"
proof -
  have d: "(2::nat) ^ k dvd 2 ^ 64" by (rule le_imp_power_dvd) (use assms in simp)
  have "slot_index (2 ^ k) (r + of_nat i) = unat (take_bit k (r + of_nat i))"
    using assms by (simp add: slot_index_def MASK_pow2 take_bit_eq_mask)
  also have "\<dots> = unat (r + of_nat i) mod 2 ^ k"
    by (simp only: unsigned_take_bit_eq take_bit_nat_def)
  also have "unat (r + of_nat i :: u64) = (unat r + i) mod 2 ^ 64"
    by (simp add: unat_word_ariths unat_of_nat mod_add_right_eq)
  also have "(unat r + i) mod 2 ^ 64 mod 2 ^ k = (unat r + i) mod 2 ^ k"
    using d by (rule mod_mod_cancel)
  finally show ?thesis .
qed

lemma slot_index_mod0:
  assumes "k < 64"
  shows "slot_index (2 ^ k) r = unat r mod 2 ^ k"
  using slot_index_mod[OF assms, of r 0] by simp

lemma slot_index_less: "k < 64 \<Longrightarrow> slot_index (2 ^ k) r < 2 ^ k"
  by (simp add: slot_index_mod0)

lemma add_mod_inj_nat:
  fixes a i j m :: nat
  assumes "(a + i) mod m = (a + j) mod m" "i < m" "j < m"
  shows "i = j"
proof -
  { fix x y :: nat assume xy: "x \<le> y" "y < m" "(a + x) mod m = (a + y) mod m"
    then have "m dvd (a + y) - (a + x)"
      by (metis add_le_cancel_left mod_eq_dvd_iff_nat)
    then have "m dvd y - x" by simp
    with xy have "x = y"
      by (metis dvd_imp_le less_imp_diff_less linorder_not_less zero_less_diff le_neq_implies_less) }
  note * = this
  show ?thesis
  proof (cases "i \<le> j")
    case True with assms * show ?thesis by blast
  next
    case False with assms *[of j i] show ?thesis by simp
  qed
qed

lemma slot_index_inj:
  assumes "k < 64" "i < 2 ^ k" "j < 2 ^ k" "i \<noteq> j"
  shows "slot_index (2 ^ k) (r + of_nat i) \<noteq> slot_index (2 ^ k) (r + of_nat j)"
proof
  assume "slot_index (2 ^ k) (r + of_nat i) = slot_index (2 ^ k) (r + of_nat j)"
  then have "(unat r + i) mod 2 ^ k = (unat r + j) mod 2 ^ k"
    using assms(1) by (simp add: slot_index_mod)
  then have "i = j" using assms(2,3) by (rule add_mod_inj_nat)
  with assms show False by simp
qed

lemma unat_of_nat_Size: "k < 64 \<Longrightarrow> unat (of_nat (2 ^ k) :: u64) = 2 ^ k"
proof -
  assume k: "k < 64"
  have lt: "(2::nat) ^ k < 2 ^ 64" by (rule power_strict_increasing) (use k in simp_all)
  have "unat (of_nat (2 ^ k) :: u64) = 2 ^ k mod 2 ^ LENGTH(64)" by (rule unat_of_nat)
  also have "\<dots> = 2 ^ k" using lt by simp
  finally show ?thesis .
qed

lemma not_full_depth:
  assumes "k < 64" "\<not> (of_nat (2 ^ k) :: u64) \<le> w - r"
  shows "unat (w - r) < 2 ^ k"
  using assms unat_of_nat_Size[of k] by (simp add: word_le_nat_alt)

lemma full_depth:
  assumes "k < 64" "(of_nat (2 ^ k) :: u64) \<le> w - r"
  shows "2 ^ k \<le> unat (w - r)"
  using assms unat_of_nat_Size[of k] by (simp add: word_le_nat_alt)

lemma pow_k_less: "k < 64 \<Longrightarrow> (2::nat) ^ k < 2 ^ 64"
  by (rule power_strict_increasing) simp_all

lemma unat_depth_add:
  fixes w r :: u64
  assumes "k < 64" "unat (w - r) + n \<le> 2 ^ k"
  shows "unat (w + of_nat n - r) = unat (w - r) + n"
proof -
  have lt: "unat (w - r) + n < 2 ^ 64" using assms pow_k_less[of k] by simp
  have "w + of_nat n - r = (w - r) + of_nat n" by simp
  also have "unat \<dots> = (unat (w - r) + n) mod 2 ^ 64"
    by (simp add: unat_word_ariths unat_of_nat mod_add_right_eq)
  also have "\<dots> = unat (w - r) + n" using lt by simp
  finally show ?thesis .
qed

lemma unat_depth_sub:
  fixes w r :: u64
  assumes "n \<le> unat (w - r)"
  shows "unat (w - (r + of_nat n)) = unat (w - r) - n"
proof -
  have "of_nat n \<le> w - r" using assms
    by (simp add: le_unat_uoi word_le_nat_alt)
  have "w - (r + of_nat n) = (w - r) - of_nat n" by simp
  also have "unat \<dots> = unat (w - r) - unat (of_nat n :: u64)"
    using \<open>of_nat n \<le> w - r\<close> by (simp add: unat_sub)
  also have "unat (of_nat n :: u64) = n"
    using assms by (metis le_unat_uoi)
  finally show ?thesis .
qed

lemma w_eq_r_plus_depth: "(w::u64) = r + of_nat (unat (w - r))"
  by simp

section \<open>Ring buffer: one call preserves the queue\<close>

lemma contents_cong:
  assumes "header b' = Some h'" "header b = Some h"
    "read_index h' = read_index h" "write_index h' = write_index h" "buffer b' = buffer b"
  shows "contents Size b' = contents Size b"
  using assms by (simp add: contents_def)

lemma ring_inv_cong:
  assumes "header b' = Some h'" "header b = Some h"
    "read_index h' = read_index h" "write_index h' = write_index h" "buffer b' = buffer b"
  shows "ring_inv Size b' = ring_inv Size b"
  using assms by (simp add: ring_inv_def)

lemma try_write_step:
  assumes k: "k < 64" and inv: "ring_inv (2 ^ k) b"
  shows "ring_inv (2 ^ k) (snd (try_write (2 ^ k) b x)) \<and>
         contents (2 ^ k) (snd (try_write (2 ^ k) b x)) =
           contents (2 ^ k) b @ (if fst (try_write (2 ^ k) b x) then [x] else [])"
proof -
  from inv obtain h where h: "header b = Some h" and len: "length (buffer b) = 2 ^ k"
    and d: "unat (write_index h - read_index h) \<le> 2 ^ k"
    by (auto simp: ring_inv_def split: option.splits)
  let ?w = "write_index h" and ?r = "read_index h"
  let ?d = "unat (?w - ?r)"
  show ?thesis
  proof (cases "(of_nat (2 ^ k) :: u64) \<le> ?w - ?r")
    case True
    then show ?thesis using h len d
      by (simp add: try_write_def ring_inv_def contents_def update_metrics_on_contention_def)
  next
    case False
    then have dlt: "?d < 2 ^ k" using k by (simp add: not_full_depth)
    have d1: "unat (?w + 1 - ?r) = ?d + 1"
      using unat_depth_add[OF k, of ?w ?r 1] dlt by simp
    have wr: "?w = ?r + of_nat ?d" by simp
    let ?buf = "(buffer b)[slot_index (2 ^ k) ?w := x]"
    have old: "?buf ! slot_index (2 ^ k) (?r + of_nat i) = buffer b ! slot_index (2 ^ k) (?r + of_nat i)"
      if "i < ?d" for i
    proof -
      have "slot_index (2 ^ k) (?r + of_nat i) \<noteq> slot_index (2 ^ k) (?r + of_nat ?d)"
        using that dlt by (intro slot_index_inj k) auto
      then show ?thesis using wr by (metis nth_list_update_neq)
    qed
    have new: "?buf ! slot_index (2 ^ k) (?r + of_nat ?d) = x"
      using wr len slot_index_less[OF k, of ?w] by (metis nth_list_update_eq)
    have "map (\<lambda>i. ?buf ! slot_index (2 ^ k) (?r + of_nat i)) [0..<?d + 1]
          = map (\<lambda>i. buffer b ! slot_index (2 ^ k) (?r + of_nat i)) [0..<?d] @ [x]"
      using old new by simp
    then show ?thesis using h len False d1 dlt
      by (simp add: try_write_def ring_inv_def contents_def update_metrics_on_write_def Let_def)
  qed
qed

lemma try_read_step:
  assumes k: "k < 64" and inv: "ring_inv (2 ^ k) b"
  shows "ring_inv (2 ^ k) (snd (snd (try_read (2 ^ k) b item))) \<and>
         contents (2 ^ k) b =
           (if fst (try_read (2 ^ k) b item) then [fst (snd (try_read (2 ^ k) b item))] else [])
           @ contents (2 ^ k) (snd (snd (try_read (2 ^ k) b item)))"
proof -
  from inv obtain h where h: "header b = Some h" and len: "length (buffer b) = 2 ^ k"
    and d: "unat (write_index h - read_index h) \<le> 2 ^ k"
    by (auto simp: ring_inv_def split: option.splits)
  let ?w = "write_index h" and ?r = "read_index h"
  let ?d = "unat (?w - ?r)"
  show ?thesis
  proof (cases "?r = ?w")
    case True
    then show ?thesis using h len d
      by (simp add: try_read_def ring_inv_def contents_def)
  next
    case False
    then have dpos: "0 < ?d" by (simp add: unat_gt_0)
    have d1: "unat (?w - (?r + 1)) = ?d - 1"
      using unat_depth_sub[of 1 ?w ?r] dpos by simp
    have "[0..<?d] = 0 # map Suc [0..<?d - 1]"
      using dpos by (metis Suc_pred' map_Suc_upt upt_conv_Cons)
    then have "map (\<lambda>i. buffer b ! slot_index (2 ^ k) (?r + of_nat i)) [0..<?d]
        = buffer b ! slot_index (2 ^ k) ?r #
          map (\<lambda>i. buffer b ! slot_index (2 ^ k) (?r + 1 + of_nat i)) [0..<?d - 1]"
      by (simp add: comp_def add.assoc)
    then show ?thesis using h len False d1 d
      by (simp add: try_read_def ring_inv_def contents_def update_metrics_on_read_def Let_def)
  qed
qed

lemma write_loop_length: "length (write_loop Size w items i n buf) = length buf"
  by (induction n arbitrary: i buf) simp_all

lemma write_loop_other:
  assumes "\<And>j. i \<le> j \<Longrightarrow> j < i + n \<Longrightarrow> slot_index Size (w + of_nat j) \<noteq> p"
  shows "write_loop Size w items i n buf ! p = buf ! p"
  using assms
proof (induction n arbitrary: i buf)
  case 0
  then show ?case by simp
next
  case (Suc n)
  have "write_loop Size w items (Suc i) n (buf[slot_index Size (w + of_nat i) := items ! i]) ! p
        = (buf[slot_index Size (w + of_nat i) := items ! i]) ! p"
    by (rule Suc.IH) (use Suc.prems in simp)
  also have "\<dots> = buf ! p"
    using Suc.prems[of i] by simp
  finally show ?case by simp
qed

lemma write_loop_written:
  assumes k: "k < 64" and len: "length buf = 2 ^ k" and bound: "i + n \<le> 2 ^ k"
    and j: "i \<le> j" "j < i + n"
  shows "write_loop (2 ^ k) w items i n buf ! slot_index (2 ^ k) (w + of_nat j) = items ! j"
  using len bound j
proof (induction n arbitrary: i buf)
  case 0
  then show ?case by simp
next
  case (Suc n)
  let ?buf = "buf[slot_index (2 ^ k) (w + of_nat i) := items ! i]"
  show ?case
  proof (cases "j = i")
    case True
    have "write_loop (2 ^ k) w items (Suc i) n ?buf ! slot_index (2 ^ k) (w + of_nat i)
          = ?buf ! slot_index (2 ^ k) (w + of_nat i)"
    proof (rule write_loop_other)
      fix j' assume "Suc i \<le> j'" "j' < Suc i + n"
      then show "slot_index (2 ^ k) (w + of_nat j') \<noteq> slot_index (2 ^ k) (w + of_nat i)"
        using Suc.prems(2) by (intro slot_index_inj k) auto
    qed
    also have "\<dots> = items ! i"
      using Suc.prems(1) slot_index_less[OF k, of "w + of_nat i"] by simp
    finally show ?thesis using True by simp
  next
    case False
    then have "write_loop (2 ^ k) w items (Suc i) n ?buf ! slot_index (2 ^ k) (w + of_nat j) = items ! j"
      using Suc.prems by (intro Suc.IH) auto
    then show ?thesis by simp
  qed
qed

lemma read_loop_length: "length (read_loop Size r buf i n items) = length items"
  by (induction n arbitrary: i items) simp_all

lemma read_loop_other:
  assumes "j < i \<or> i + n \<le> j"
  shows "read_loop Size r buf i n items ! j = items ! j"
  using assms by (induction n arbitrary: i items) auto

lemma read_loop_read:
  assumes "i + n \<le> length items" "i \<le> j" "j < i + n"
  shows "read_loop Size r buf i n items ! j = buf ! slot_index Size (r + of_nat j)"
  using assms
proof (induction n arbitrary: i items)
  case 0
  then show ?case by simp
next
  case (Suc n)
  show ?case
  proof (cases "j = i")
    case True
    then show ?thesis using Suc.prems by (simp add: read_loop_other)
  next
    case False
    then show ?thesis using Suc.prems Suc.IH[of "Suc i" "items[i := buf ! slot_index Size (r + of_nat i)]"]
      by simp
  qed
qed

lemma take_read_loop:
  assumes "n \<le> length items"
  shows "take n (read_loop Size r buf 0 n items) = map (\<lambda>j. buf ! slot_index Size (r + of_nat j)) [0..<n]"
  using assms by (intro nth_equalityI) (simp_all add: read_loop_length read_loop_read)

lemma min_eq_0_nat: "min (a::nat) b = 0 \<longleftrightarrow> a = 0 \<or> b = 0"
  by (auto simp: min_def)

lemma map_upt_split:
  assumes "n \<le> d"
  shows "map f [0..<d] = map f [0..<n] @ map (\<lambda>i. f (n + i)) [0..<d - n]"
proof (rule nth_equalityI)
  show "length (map f [0..<d]) = length (map f [0..<n] @ map (\<lambda>i. f (n + i)) [0..<d - n])"
    using assms by simp
next
  fix i assume "i < length (map f [0..<d])"
  then have i: "i < d" by simp
  show "map f [0..<d] ! i = (map f [0..<n] @ map (\<lambda>i. f (n + i)) [0..<d - n]) ! i"
  proof (cases "i < n")
    case True
    then show ?thesis using i by (simp add: nth_append)
  next
    case False
    then have "n + (i - n) = i" "i - n < d - n" using i by simp_all
    then show ?thesis using i False by (simp add: nth_append)
  qed
qed

lemma avail_slots:
  fixes w r :: u64
  assumes k: "k < 64" and d: "unat (w - r) \<le> 2 ^ k"
  shows "unat (of_nat (2 ^ k) - (w - r) :: u64) = 2 ^ k - unat (w - r)"
proof -
  have "w - r \<le> (of_nat (2 ^ k) :: u64)"
    using d unat_of_nat_Size[OF k] by (simp add: word_le_nat_alt)
  then have "unat (of_nat (2 ^ k) - (w - r) :: u64) = unat (of_nat (2 ^ k) :: u64) - unat (w - r)"
    by (rule unat_sub)
  then show ?thesis using unat_of_nat_Size[OF k] by simp
qed

lemma contents_eq:
  assumes "header b = Some h"
  shows "contents Size b = map (\<lambda>i. buffer b ! slot_index Size (read_index h + of_nat i))
                      [0..<unat (write_index h - read_index h)]"
  using assms by (simp add: contents_def)

lemma ring_inv_eq:
  assumes "header b = Some h"
  shows "ring_inv Size b \<longleftrightarrow> length (buffer b) = Size \<and> unat (write_index h - read_index h) \<le> Size"
  using assms by (simp add: ring_inv_def)

lemma try_write_batch_step:
  assumes k: "k < 64" and inv: "ring_inv (2 ^ k) b"
  shows "ring_inv (2 ^ k) (snd (try_write_batch (2 ^ k) b xs)) \<and>
         contents (2 ^ k) (snd (try_write_batch (2 ^ k) b xs)) =
           contents (2 ^ k) b @ take (fst (try_write_batch (2 ^ k) b xs)) xs"
proof -
  from inv obtain h where h: "header b = Some h" and len: "length (buffer b) = 2 ^ k"
    and d: "unat (write_index h - read_index h) \<le> 2 ^ k"
    by (auto simp: ring_inv_def split: option.splits)
  let ?w = "write_index h" and ?r = "read_index h"
  let ?d = "unat (?w - ?r)"
  define n where "n = min (length xs) (2 ^ k - ?d)"
  have av: "unat (of_nat (2 ^ k) - (?w - ?r) :: u64) = 2 ^ k - ?d"
    using k d by (rule avail_slots)
  show ?thesis
  proof (cases "xs = [] \<or> n = 0")
    case True
    then consider "xs = []" | "xs \<noteq> []" "2 ^ k - ?d = 0" by (auto simp: n_def min_eq_0_nat)
    then show ?thesis
    proof cases
      case 1
      then show ?thesis using h inv
        by (simp add: try_write_batch_def)
    next
      case 2
      have "try_write_batch (2 ^ k) b xs =
         (0, b\<lparr>consecutive_full_writes := consecutive_full_writes b + 1,
                header := Some (update_metrics_on_contention h)\<rparr>)"
        using h 2 av by (simp add: try_write_batch_def Let_def)
      then show ?thesis using h len d
        by (simp add: ring_inv_def contents_def update_metrics_on_contention_def)
    qed
  next
    case False
    then have nz: "n \<noteq> 0" and xs: "xs \<noteq> []" by auto
    have nle: "n \<le> length xs" and "n \<le> 2 ^ k - ?d" by (simp_all add: n_def)
    then have bound: "?d + n \<le> 2 ^ k" using d by linarith
    have d1: "unat (?w + of_nat n - ?r) = ?d + n"
      using k bound by (rule unat_depth_add)
    let ?buf = "write_loop (2 ^ k) ?w xs 0 n (buffer b)"
    define f where "f = (\<lambda>(buf::'a list) i. buf ! slot_index (2 ^ k) (?r + of_nat i))"
    have cb: "contents (2 ^ k) b = map (f (buffer b)) [0..<?d]"
      unfolding f_def by (rule contents_eq[OF h])
    have old: "f ?buf i = f (buffer b) i" if "i < ?d" for i
      unfolding f_def
    proof (rule write_loop_other)
      fix j assume "0 \<le> j" "j < 0 + n"
      have e: "?w + of_nat j = ?r + of_nat (?d + j)" by simp
      have "?d + j < 2 ^ k" "i < 2 ^ k" "?d + j \<noteq> i" using that bound \<open>j < 0 + n\<close> by auto
      then have "slot_index (2 ^ k) (?r + of_nat (?d + j)) \<noteq> slot_index (2 ^ k) (?r + of_nat i)"
        by (intro slot_index_inj k)
      then show "slot_index (2 ^ k) (?w + of_nat j) \<noteq> slot_index (2 ^ k) (?r + of_nat i)"
        unfolding e .
    qed
    have new: "f ?buf (?d + i) = xs ! i" if "i < n" for i
    proof -
      have e: "?r + of_nat (?d + i) = ?w + of_nat i" by simp
      have "?buf ! slot_index (2 ^ k) (?w + of_nat i) = xs ! i"
        by (rule write_loop_written[OF k len]) (use that bound in auto)
      then show ?thesis unfolding f_def e .
    qed
    have "map (f ?buf) [0..<?d + n] = map (f ?buf) [0..<?d] @ map (\<lambda>i. f ?buf (?d + i)) [0..<n]"
      using map_upt_split[of ?d "?d + n" "f ?buf"] by simp
    also have "map (f ?buf) [0..<?d] = map (f (buffer b)) [0..<?d]"
      using old by simp
    also have "map (\<lambda>i. f ?buf (?d + i)) [0..<n] = take n xs"
      using new nle by (intro nth_equalityI) simp_all
    finally have c: "map (f ?buf) [0..<?d + n] = contents (2 ^ k) b @ take n xs"
      unfolding cb .
    define h' where "h' = h\<lparr>write_index := ?w + of_nat n,
                                 total_writes := total_writes h + of_nat n\<rparr>"
    define b' where "b' = b\<lparr>consecutive_full_writes := 0, buffer := ?buf, header := Some h'\<rparr>"
    have res: "try_write_batch (2 ^ k) b xs = (n, b')"
      using h xs nz av unfolding b'_def h'_def n_def
      by (simp add: try_write_batch_def Let_def min_eq_0_nat)
    have hb': "header b' = Some h'" and bb': "buffer b' = ?buf" by (simp_all add: b'_def)
    have rw: "read_index h' = ?r" "write_index h' = ?w + of_nat n" by (simp_all add: h'_def)
    have c': "contents (2 ^ k) b' = map (f ?buf) [0..<?d + n]"
      unfolding contents_eq[OF hb'] rw bb' d1 f_def ..
    have i': "ring_inv (2 ^ k) b'"
      unfolding ring_inv_eq[OF hb'] rw bb' d1 using bound by (simp add: write_loop_length len)
    show ?thesis unfolding res fst_conv snd_conv c' c using i' by simp
  qed
qed

lemma try_read_batch_step:
  assumes k: "k < 64" and inv: "ring_inv (2 ^ k) b"
  shows "ring_inv (2 ^ k) (snd (snd (try_read_batch (2 ^ k) b items (length items)))) \<and>
         contents (2 ^ k) b =
           take (fst (try_read_batch (2 ^ k) b items (length items)))
                (fst (snd (try_read_batch (2 ^ k) b items (length items))))
           @ contents (2 ^ k) (snd (snd (try_read_batch (2 ^ k) b items (length items))))"
proof -
  from inv obtain h where h: "header b = Some h" and len: "length (buffer b) = 2 ^ k"
    and d: "unat (write_index h - read_index h) \<le> 2 ^ k"
    by (auto simp: ring_inv_def split: option.splits)
  let ?w = "write_index h" and ?r = "read_index h"
  let ?d = "unat (?w - ?r)"
  define n where "n = min (length items) ?d"
  show ?thesis
  proof (cases "items = [] \<or> n = 0")
    case True
    then consider "items = []" | "items \<noteq> []" "?d = 0" by (auto simp: n_def min_eq_0_nat)
    then show ?thesis
    proof cases
      case 1
      then show ?thesis using h inv
        by (simp add: try_read_batch_def)
    next
      case 2
      have "try_read_batch (2 ^ k) b items (length items) =
         (0, items, b\<lparr>consecutive_empty_reads := consecutive_empty_reads b + 1\<rparr>)"
        using h 2 by (simp add: try_read_batch_def Let_def)
      then show ?thesis using h len d
        by (simp add: ring_inv_def contents_def)
    qed
  next
    case False
    then have nz: "n \<noteq> 0" and xs: "items \<noteq> []" by auto
    have nle: "n \<le> length items" and nd: "n \<le> ?d" by (simp_all add: n_def)
    have d1: "unat (?w - (?r + of_nat n)) = ?d - n"
      using nd by (rule unat_depth_sub)
    let ?items = "read_loop (2 ^ k) ?r (buffer b) 0 n items"
    define f where "f = (\<lambda>i. buffer b ! slot_index (2 ^ k) (?r + of_nat i))"
    have cb: "contents (2 ^ k) b = map f [0..<?d]"
      unfolding f_def by (rule contents_eq[OF h])
    have tk: "take n ?items = map f [0..<n]"
      unfolding f_def using nle by (rule take_read_loop)
    have sp: "map f [0..<?d] = map f [0..<n] @ map (\<lambda>i. f (n + i)) [0..<?d - n]"
      using nd by (rule map_upt_split)
    define h' where "h' = h\<lparr>read_index := ?r + of_nat n,
                                 total_reads := total_reads h + of_nat n\<rparr>"
    define b' where "b' = b\<lparr>consecutive_empty_reads := 0, header := Some h'\<rparr>"
    have res: "try_read_batch (2 ^ k) b items (length items) = (n, ?items, b')"
      using h xs nz unfolding b'_def h'_def n_def
      by (simp add: try_read_batch_def Let_def min_eq_0_nat)
    have hb': "header b' = Some h'" and bb': "buffer b' = buffer b" by (simp_all add: b'_def)
    have rw: "read_index h' = ?r + of_nat n" "write_index h' = ?w" by (simp_all add: h'_def)
    have e: "?r + of_nat n + of_nat i = ?r + of_nat (n + i)" for i by simp
    have c': "contents (2 ^ k) b' = map (\<lambda>i. f (n + i)) [0..<?d - n]"
      unfolding contents_eq[OF hb'] rw bb' d1 f_def e ..
    have i': "ring_inv (2 ^ k) b'"
      unfolding ring_inv_eq[OF hb'] rw bb' d1 using d by (simp add: len)
    show ?thesis unfolding res fst_conv snd_conv c' cb tk using i' sp by simp
  qed
qed

lemma step_queue:
  assumes k: "k < 64" and inv: "ring_inv (2 ^ k) b"
  shows "ring_inv (2 ^ k) (step (2 ^ k) b x) \<and>
         contents (2 ^ k) b @ written (2 ^ k) b x =
           delivered (2 ^ k) b x @ contents (2 ^ k) (step (2 ^ k) b x)"
proof (cases x)
  case (Write a)
  then show ?thesis using try_write_step[OF k inv, of a] by simp
next
  case (Read a)
  then show ?thesis using try_read_step[OF k inv, of a]
    by (simp add: case_prod_beta)
next
  case (WriteBatch xs)
  then show ?thesis using try_write_batch_step[OF k inv, of xs] by simp
next
  case (ReadBatch items)
  then show ?thesis using try_read_batch_step[OF k inv, of items]
    by (simp add: case_prod_beta)
next
  case ResetMetrics
  from inv obtain h where h: "header b = Some h"
    by (auto simp: ring_inv_def split: option.splits)
  then show ?thesis using ResetMetrics inv
    by (simp add: reset_tta_metrics_def ring_inv_def contents_def)
qed

lemma run_queue:
  assumes k: "k < 64" and inv: "ring_inv (2 ^ k) b"
  shows "ring_inv (2 ^ k) (run (2 ^ k) b ops) \<and>
         contents (2 ^ k) b @ writes_of (2 ^ k) b ops =
           reads_of (2 ^ k) b ops @ contents (2 ^ k) (run (2 ^ k) b ops)"
  using inv
proof (induction ops arbitrary: b)
  case Nil
  then show ?case by simp
next
  case (Cons x ops)
  from step_queue[OF k Cons.prems, of x]
  have i: "ring_inv (2 ^ k) (step (2 ^ k) b x)"
    and q: "contents (2 ^ k) b @ written (2 ^ k) b x =
           delivered (2 ^ k) b x @ contents (2 ^ k) (step (2 ^ k) b x)" by simp_all
  from Cons.IH[OF i]
  have i2: "ring_inv (2 ^ k) (run (2 ^ k) (step (2 ^ k) b x) ops)"
    and q2: "contents (2 ^ k) (step (2 ^ k) b x) @ writes_of (2 ^ k) (step (2 ^ k) b x) ops =
       reads_of (2 ^ k) (step (2 ^ k) b x) ops @ contents (2 ^ k) (run (2 ^ k) (step (2 ^ k) b x) ops)"
    by simp_all
  have "contents (2 ^ k) b @ writes_of (2 ^ k) b (x # ops)
        = (contents (2 ^ k) b @ written (2 ^ k) b x) @ writes_of (2 ^ k) (step (2 ^ k) b x) ops"
    by simp
  also have "\<dots> = delivered (2 ^ k) b x @
       (contents (2 ^ k) (step (2 ^ k) b x) @ writes_of (2 ^ k) (step (2 ^ k) b x) ops)"
    unfolding q by simp
  also have "\<dots> = reads_of (2 ^ k) b (x # ops) @ contents (2 ^ k) (run (2 ^ k) b (x # ops))"
    unfolding q2 by simp
  finally show ?case using i2 by simp
qed

lemma create_inv: "ring_inv Size (create Size T0)"
  by (simp add: ring_inv_def create_def Header_init_def)

lemma create_contents: "contents Size (create Size T0) = []"
  by (simp add: contents_def create_def Header_init_def)

section \<open>Ring buffer: first in, first out\<close>



lemma ring_fifo_example:
  "reads_of 64 (create 64 (0::nat)) [Write 7, WriteBatch [8, 9], Read 0, ReadBatch [0, 0, 0]] = [7, 8, 9]"
  by code_simp

section \<open>Ring buffer: conservation\<close>

lemma skew_try_write:
  assumes "header b = Some h"
  shows "\<exists>h'. header (snd (try_write Size b x)) = Some h' \<and> skew h' = skew h"
  using assms
  by (simp add: try_write_def Let_def skew_def update_metrics_on_write_def
      update_metrics_on_contention_def)

lemma skew_try_read:
  assumes "header b = Some h"
  shows "\<exists>h'. header (snd (snd (try_read Size b x))) = Some h' \<and> skew h' = skew h"
  using assms
  by (simp add: try_read_def Let_def skew_def update_metrics_on_read_def)

lemma skew_try_write_batch:
  assumes "header b = Some h"
  shows "\<exists>h'. header (snd (try_write_batch Size b xs)) = Some h' \<and> skew h' = skew h"
  using assms
  by (simp add: try_write_batch_def Let_def skew_def update_metrics_on_contention_def)

lemma skew_try_read_batch:
  assumes "header b = Some h"
  shows "\<exists>h'. header (snd (snd (try_read_batch Size b xs c))) = Some h' \<and> skew h' = skew h"
  using assms
  by (simp add: try_read_batch_def Let_def skew_def)

lemma skew_reset:
  assumes "header b = Some h"
  shows "\<exists>h'. header (reset_tta_metrics b) = Some h' \<and> skew h' = size_rb b"
  using assms
  by (simp add: reset_tta_metrics_def skew_def size_rb_def)

lemma run_skew:
  assumes "header b = Some h" "skew h = base"
  shows "\<exists>h'. header (run Size b ops) = Some h' \<and> skew h' = depth_at_last_reset Size b base ops"
  using assms
proof (induction ops arbitrary: b h base)
  case Nil
  then show ?case by simp
next
  case (Cons x ops)
  show ?case
  proof (cases x)
    case (Write a)
    from skew_try_write[OF Cons.prems(1), of Size a] obtain h'
      where "header (step Size b x) = Some h'" "skew h' = base"
      using Write Cons.prems(2) by auto
    from Cons.IH[OF this] show ?thesis using Write by simp
  next
    case (Read a)
    from skew_try_read[OF Cons.prems(1), of Size a] obtain h'
      where "header (step Size b x) = Some h'" "skew h' = base"
      using Read Cons.prems(2) by auto
    from Cons.IH[OF this] show ?thesis using Read by simp
  next
    case (WriteBatch xs)
    from skew_try_write_batch[OF Cons.prems(1), of Size xs] obtain h'
      where "header (step Size b x) = Some h'" "skew h' = base"
      using WriteBatch Cons.prems(2) by auto
    from Cons.IH[OF this] show ?thesis using WriteBatch by simp
  next
    case (ReadBatch xs)
    from skew_try_read_batch[OF Cons.prems(1), of Size xs "length xs"] obtain h'
      where "header (step Size b x) = Some h'" "skew h' = base"
      using ReadBatch Cons.prems(2) by auto
    from Cons.IH[OF this] show ?thesis using ReadBatch by simp
  next
    case ResetMetrics
    from skew_reset[OF Cons.prems(1)] obtain h'
      where "header (reset_tta_metrics b) = Some h'" "skew h' = size_rb b"
      by auto
    from Cons.IH[OF this] show ?thesis using ResetMetrics by simp
  qed
qed

lemma no_reset_depth: "ResetMetrics \<notin> set ops \<Longrightarrow> depth_at_last_reset Size b base ops = base"
proof (induction ops arbitrary: b)
  case Nil then show ?case by simp
next
  case (Cons x ops) then show ?case by (cases x) simp_all
qed

text \<open>
  C1 (as amended).  In every state reached from a freshly created buffer by calls of
  \<open>try_write\<close>, \<open>try_read\<close>, \<open>try_write_batch\<close>, \<open>try_read_batch\<close> and
  \<open>reset_tta_metrics\<close>, the depth \<open>write_index - read_index\<close> (in 64-bit arithmetic) is
  at most \<open>Size\<close>, and \<open>total_writes - total_reads\<close> is the depth minus the depth the
  buffer had at the last call of \<open>reset_tta_metrics\<close> (minus 0 if it was never called).
  The claim as stated, with the difference of the totals equal to the depth itself, fails
  after a reset of a non-empty buffer, which zeroes both totals and leaves the indices.
\<close>

theorem ring_conservation:
  assumes "Size = 2 ^ k" "6 \<le> k" "k < 64"
  shows "header (run Size (create Size T0) ops) \<noteq> None \<and>
         unat (size_rb (run Size (create Size T0) ops)) \<le> Size \<and>
         get_total_writes (run Size (create Size T0) ops)
           - get_total_reads (run Size (create Size T0) ops) =
             size_rb (run Size (create Size T0) ops)
               - depth_at_last_reset Size (create Size T0) 0 ops"
proof -
  have h0: "header (create Size T0) = Some Header_init" by (simp add: create_def)
  have s0: "skew Header_init = 0" by (simp add: skew_def Header_init_def)
  from run_skew[OF h0 s0, of Size ops] obtain h
    where h: "header (run Size (create Size T0) ops) = Some h"
      and s: "skew h = depth_at_last_reset Size (create Size T0) 0 ops" by auto
  have "ring_inv (2 ^ k) (run (2 ^ k) (create (2 ^ k) T0) ops)"
    by (rule run_queue[OF assms(3) create_inv, THEN conjunct1])
  then have d: "unat (write_index h - read_index h) \<le> Size"
    using h assms(1) by (simp add: ring_inv_def)
  have "total_writes h - total_reads h = (write_index h - read_index h) - skew h"
    by (simp add: skew_def)
  then show ?thesis using h d s
    by (simp add: size_rb_def get_total_writes_def get_total_reads_def)
qed

theorem ring_conservation_witness:
  "(64::nat) = 2 ^ 6 \<and> (6::nat) \<le> 6 \<and> (6::nat) < 64 \<and>
   header (run 64 (create 64 (0::nat)) [Write 7, ResetMetrics, Write 8, Read 0]) \<noteq> None \<and>
   unat (size_rb (run 64 (create 64 (0::nat)) [Write 7, ResetMetrics, Write 8, Read 0])) \<le> 64 \<and>
   get_total_writes (run 64 (create 64 (0::nat)) [Write 7, ResetMetrics, Write 8, Read 0])
     - get_total_reads (run 64 (create 64 (0::nat)) [Write 7, ResetMetrics, Write 8, Read 0]) =
       size_rb (run 64 (create 64 (0::nat)) [Write 7, ResetMetrics, Write 8, Read 0])
         - depth_at_last_reset 64 (create 64 (0::nat)) 0 [Write 7, ResetMetrics, Write 8, Read 0]"
  using ring_conservation [of 64 6 "0::nat" "[Write 7, ResetMetrics, Write 8, Read 0]"] by simp

theorem ring_conservation_counterexample:
  "get_total_writes (run 64 (create 64 (0::nat)) [Write 7, ResetMetrics])
     - get_total_reads (run 64 (create 64 (0::nat)) [Write 7, ResetMetrics])
   \<noteq> size_rb (run 64 (create 64 (0::nat)) [Write 7, ResetMetrics])"
  by (simp add: create_def Header_init_def try_write_def reset_tta_metrics_def
      update_metrics_on_write_def Let_def size_rb_def get_total_writes_def get_total_reads_def)

section \<open>Ring buffer: back-pressure\<close>

lemma try_write_full:
  assumes "header b = Some h" "of_nat Size \<le> write_index h - read_index h"
  shows "try_write Size b x =
     (False, b\<lparr>consecutive_full_writes := consecutive_full_writes b + 1,
               header := Some (h\<lparr>contention_events := contention_events h + 1\<rparr>)\<rparr>)"
  using assms by (simp add: try_write_def update_metrics_on_contention_def)

lemma try_write_ok:
  assumes "header b = Some h" "\<not> of_nat Size \<le> write_index h - read_index h"
  shows "fst (try_write Size b x) \<and>
         (\<exists>h'. header (snd (try_write Size b x)) = Some h' \<and>
            write_index h' = write_index h + 1 \<and> read_index h' = read_index h \<and>
            contention_events h' = contention_events h \<and>
            total_writes h' = total_writes h + 1)"
  using assms by (simp add: try_write_def update_metrics_on_write_def Let_def)

lemma producer_attempts_props:
  assumes k: "k < 64"
  shows "ring_inv (2 ^ k) b \<Longrightarrow> header b = Some h \<Longrightarrow>
         free = 2 ^ k - unat (write_index h - read_index h) \<Longrightarrow>
         fst (producer_attempts (2 ^ k) b xs) =
             replicate (min (length xs) free) True @ replicate (length xs - free) False \<and>
         ring_inv (2 ^ k) (snd (producer_attempts (2 ^ k) b xs)) \<and>
         contents (2 ^ k) (snd (producer_attempts (2 ^ k) b xs)) = contents (2 ^ k) b @ take free xs \<and>
         (\<exists>h'. header (snd (producer_attempts (2 ^ k) b xs)) = Some h' \<and>
            read_index h' = read_index h \<and>
            write_index h' = write_index h + of_nat (min (length xs) free) \<and>
            total_writes h' = total_writes h + of_nat (min (length xs) free) \<and>
            contention_events h' = contention_events h + of_nat (length xs - free))"
proof (induction xs arbitrary: b h free)
  case Nil
  then show ?case by simp
next
  case (Cons x xs)
  let ?d = "unat (write_index h - read_index h)"
  from Cons.prems have d: "?d \<le> 2 ^ k" by (simp add: ring_inv_def)
  let ?b1 = "snd (try_write (2 ^ k) b x)"
  have inv1: "ring_inv (2 ^ k) ?b1"
    and c1: "contents (2 ^ k) ?b1 = contents (2 ^ k) b @ (if fst (try_write (2 ^ k) b x) then [x] else [])"
    using try_write_step[OF k Cons.prems(1), of x] by simp_all
  have pa: "producer_attempts (2 ^ k) b (x # xs) =
      (fst (try_write (2 ^ k) b x) # fst (producer_attempts (2 ^ k) ?b1 xs),
       snd (producer_attempts (2 ^ k) ?b1 xs))"
    by (simp add: case_prod_beta)
  show ?case
  proof (cases "(of_nat (2 ^ k) :: u64) \<le> write_index h - read_index h")
    case True
    then have f0: "free = 0" using Cons.prems(3) full_depth[OF k True] by simp
    have tw: "try_write (2 ^ k) b x =
       (False, b\<lparr>consecutive_full_writes := consecutive_full_writes b + 1,
               header := Some (h\<lparr>contention_events := contention_events h + 1\<rparr>)\<rparr>)"
      by (rule try_write_full[OF Cons.prems(2) True])
    define h1 where "h1 = h\<lparr>contention_events := contention_events h + 1\<rparr>"
    have h1: "header ?b1 = Some h1" unfolding tw h1_def by simp
    have fr: "free = 2 ^ k - unat (write_index h1 - read_index h1)"
      using Cons.prems(3) by (simp add: h1_def)
    note IH = Cons.IH[OF inv1 h1 fr]
    have ok: "fst (try_write (2 ^ k) b x) = False" unfolding tw by simp
    from IH obtain h' where h': "header (snd (producer_attempts (2 ^ k) ?b1 xs)) = Some h'"
      "read_index h' = read_index h1"
      "write_index h' = write_index h1 + of_nat (min (length xs) free)"
      "total_writes h' = total_writes h1 + of_nat (min (length xs) free)"
      "contention_events h' = contention_events h1 + of_nat (length xs - free)"
      by blast
    have "\<exists>h'. header (snd (producer_attempts (2 ^ k) b (x # xs))) = Some h' \<and>
            read_index h' = read_index h \<and>
            write_index h' = write_index h + of_nat (min (length (x # xs)) free) \<and>
            total_writes h' = total_writes h + of_nat (min (length (x # xs)) free) \<and>
            contention_events h' = contention_events h + of_nat (length (x # xs) - free)"
      unfolding pa using h' f0 by (simp add: h1_def)
    moreover have "fst (producer_attempts (2 ^ k) b (x # xs)) =
             replicate (min (length (x # xs)) free) True @ replicate (length (x # xs) - free) False"
      unfolding pa using IH ok f0 by simp
    moreover have "ring_inv (2 ^ k) (snd (producer_attempts (2 ^ k) b (x # xs)))"
      unfolding pa using IH by simp
    moreover have "contents (2 ^ k) (snd (producer_attempts (2 ^ k) b (x # xs))) =
        contents (2 ^ k) b @ take free (x # xs)"
      unfolding pa using IH c1 ok f0 by simp
    ultimately show ?thesis by blast
  next
    case False
    then have dlt: "?d < 2 ^ k" using k by (simp add: not_full_depth)
    then obtain f' where fS: "free = Suc f'" using Cons.prems(3)
      by (metis Suc_diff_Suc)
    from try_write_ok[OF Cons.prems(2) False, of x] obtain h1 where
      ok: "fst (try_write (2 ^ k) b x)" and h1: "header ?b1 = Some h1"
      and h1f: "write_index h1 = write_index h + 1" "read_index h1 = read_index h"
        "contention_events h1 = contention_events h" "total_writes h1 = total_writes h + 1"
      by blast
    have d1: "unat (write_index h + 1 - read_index h) = ?d + 1"
      using unat_depth_add[OF k, of "write_index h" "read_index h" 1] dlt by simp
    have fr: "f' = 2 ^ k - unat (write_index h1 - read_index h1)"
      unfolding h1f d1 using fS Cons.prems(3) by simp
    note IH = Cons.IH[OF inv1 h1 fr]
    from IH obtain h' where h': "header (snd (producer_attempts (2 ^ k) ?b1 xs)) = Some h'"
      "read_index h' = read_index h1"
      "write_index h' = write_index h1 + of_nat (min (length xs) f')"
      "total_writes h' = total_writes h1 + of_nat (min (length xs) f')"
      "contention_events h' = contention_events h1 + of_nat (length xs - f')"
      by blast
    have "\<exists>h'. header (snd (producer_attempts (2 ^ k) b (x # xs))) = Some h' \<and>
            read_index h' = read_index h \<and>
            write_index h' = write_index h + of_nat (min (length (x # xs)) free) \<and>
            total_writes h' = total_writes h + of_nat (min (length (x # xs)) free) \<and>
            contention_events h' = contention_events h + of_nat (length (x # xs) - free)"
      unfolding pa fS using h' h1f by simp
    moreover have "fst (producer_attempts (2 ^ k) b (x # xs)) =
             replicate (min (length (x # xs)) free) True @ replicate (length (x # xs) - free) False"
      unfolding pa fS using IH ok by simp
    moreover have "ring_inv (2 ^ k) (snd (producer_attempts (2 ^ k) b (x # xs)))"
      unfolding pa using IH by simp
    moreover have "contents (2 ^ k) (snd (producer_attempts (2 ^ k) b (x # xs))) =
        contents (2 ^ k) b @ take free (x # xs)"
      unfolding pa fS using IH c1 ok by simp
    ultimately show ?thesis by blast
  qed
qed

text \<open>
  C7.  With no consumer, a producer that attempts \<open>W \<ge> Size\<close> writes into a fresh
  buffer succeeds exactly for the first \<open>Size\<close> and gets false for the other
  \<open>W - Size\<close>; afterwards the depth is \<open>Size\<close>, \<open>contention_events\<close> is
  \<open>W - Size\<close> and the records in flight are the first \<open>Size\<close> records offered.  Each
  write on a full buffer returns false, adds one to \<open>contention_events\<close> and leaves
  \<open>write_index\<close> and every slot as they were.  At \<open>Size = 4096\<close> and \<open>W = 5000\<close>: 4096
  successes, 904 failures, \<open>contention_events = 904\<close>, depth 4096.
\<close>

theorem ring_back_pressure:
  assumes "Size = 2 ^ k" "6 \<le> k" "k < 64" "Size \<le> length xs"
  shows "fst (producer_attempts Size (create Size T0) xs)
           = replicate Size True @ replicate (length xs - Size) False \<and>
         size_rb (snd (producer_attempts Size (create Size T0) xs)) = of_nat Size \<and>
         map_option contention_events (header (snd (producer_attempts Size (create Size T0) xs)))
           = Some (of_nat (length xs - Size)) \<and>
         map_option write_index (header (snd (producer_attempts Size (create Size T0) xs)))
           = Some (of_nat Size) \<and>
         get_total_writes (snd (producer_attempts Size (create Size T0) xs)) = of_nat Size \<and>
         contents Size (snd (producer_attempts Size (create Size T0) xs)) = take Size xs \<and>
         (\<forall>(b::'a SharedRingBuffer) h x.
            header b = Some h \<and> of_nat Size \<le> write_index h - read_index h \<longrightarrow>
            \<not> fst (try_write Size b x) \<and>
            buffer (snd (try_write Size b x)) = buffer b \<and>
            map_option write_index (header (snd (try_write Size b x))) = Some (write_index h) \<and>
            map_option contention_events (header (snd (try_write Size b x)))
              = Some (contention_events h + 1))"
proof -
  have inv0: "ring_inv (2 ^ k) (create (2 ^ k) T0)" by (rule create_inv)
  have h0: "header (create (2 ^ k) T0) = Some Header_init" by (simp add: create_def)
  have fr: "2 ^ k = 2 ^ k - unat (write_index Header_init - read_index Header_init)"
    by (simp add: Header_init_def)
  note P = producer_attempts_props[OF assms(3) inv0 h0 fr, of xs]
  let ?b = "snd (producer_attempts (2 ^ k) (create (2 ^ k) T0) xs)"
  have m: "min (length xs) (2 ^ k) = 2 ^ k" using assms(1,4) by simp
  from P obtain h' where h': "header ?b = Some h'" "read_index h' = 0"
      "write_index h' = of_nat (2 ^ k)" "total_writes h' = of_nat (2 ^ k)"
      "contention_events h' = of_nat (length xs - 2 ^ k)"
    unfolding m by (auto simp: Header_init_def)
  have 1: "fst (producer_attempts (2 ^ k) (create (2 ^ k) T0) xs)
           = replicate (2 ^ k) True @ replicate (length xs - 2 ^ k) False"
    using P unfolding m by simp
  have 2: "contents (2 ^ k) ?b = take (2 ^ k) xs"
    using P by (simp add: create_contents)
  have 3: "size_rb ?b = of_nat (2 ^ k)" using h' by (simp add: size_rb_def)
  have 4: "get_total_writes ?b = of_nat (2 ^ k)" using h' by (simp add: get_total_writes_def)
  have 5: "\<not> fst (try_write Size b x) \<and>
            buffer (snd (try_write Size b x)) = buffer b \<and>
            map_option write_index (header (snd (try_write Size b x))) = Some (write_index h) \<and>
            map_option contention_events (header (snd (try_write Size b x)))
              = Some (contention_events h + 1)"
    if "header b = Some h" "of_nat Size \<le> write_index h - read_index h" for b :: "'a SharedRingBuffer" and h x
    unfolding try_write_full[OF that] by simp
  show ?thesis unfolding assms(1) using 1 2 3 4 5 h' unfolding assms(1) by simp
qed

theorem ring_back_pressure_witness:
  "(4096::nat) = 2 ^ 12 \<and> (6::nat) \<le> 12 \<and> (12::nat) < 64 \<and>
   4096 \<le> length (replicate 5000 (7::nat)) \<and>
   fst (producer_attempts 4096 (create 4096 0) (replicate 5000 (7::nat)))
     = replicate 4096 True @ replicate 904 False \<and>
   size_rb (snd (producer_attempts 4096 (create 4096 0) (replicate 5000 (7::nat)))) = 4096 \<and>
   map_option contention_events
     (header (snd (producer_attempts 4096 (create 4096 0) (replicate 5000 (7::nat))))) = Some 904"
proof -
  have h: "(4096::nat) = 2 ^ 12" "(6::nat) \<le> 12" "(12::nat) < 64"
    "4096 \<le> length (replicate 5000 (7::nat))" by simp_all
  show ?thesis
    using h ring_back_pressure [OF h, of 0] apply (simp del: map_option_eq_Some)
    apply (elim conjE) apply (intro conjI) apply assumption+ done
qed

section \<open>Ring buffer: null header\<close>

text \<open>
  C10.  Every public operation on an object whose header pointer is null (a moved-from
  buffer) returns its neutral value and leaves the object as it was: \<open>try_write\<close> and
  \<open>try_read\<close> return false, the batch operations return 0, \<open>size()\<close> is 0,
  \<open>empty()\<close> is true, \<open>full()\<close> is false and the two totals read 0.
\<close>

theorem null_header_neutral:
  assumes "header b = None"
  shows "try_write Size b item = (False, b) \<and>
         try_read Size b item = (False, item, b) \<and>
         try_write_batch Size b items = (0, b) \<and>
         try_read_batch Size b items cnt = (0, items, b) \<and>
         size_rb b = 0 \<and> empty_rb b \<and> \<not> full_rb Size b \<and>
         get_total_writes b = 0 \<and> get_total_reads b = 0 \<and>
         reset_tta_metrics b = b"
  using assms
  by (simp add: try_write_def try_read_def try_write_batch_def try_read_batch_def
      size_rb_def empty_rb_def full_rb_def get_total_writes_def get_total_reads_def
      reset_tta_metrics_def)

theorem null_header_neutral_witness:
  "header (snd (move_construct (create 64 (0::nat)))) = None \<and>
   try_write 64 (snd (move_construct (create 64 (0::nat)))) 7
     = (False, snd (move_construct (create 64 0))) \<and>
   try_read 64 (snd (move_construct (create 64 (0::nat)))) 7
     = (False, 7, snd (move_construct (create 64 0))) \<and>
   try_write_batch 64 (snd (move_construct (create 64 (0::nat)))) [1, 2]
     = (0, snd (move_construct (create 64 0))) \<and>
   try_read_batch 64 (snd (move_construct (create 64 (0::nat)))) [1, 2] 2
     = (0, [1, 2], snd (move_construct (create 64 0))) \<and>
   size_rb (snd (move_construct (create 64 (0::nat)))) = 0 \<and>
   empty_rb (snd (move_construct (create 64 (0::nat)))) \<and>
   \<not> full_rb 64 (snd (move_construct (create 64 (0::nat))))"
proof -
  have h: "header (snd (move_construct (create 64 (0::nat)))) = None"
    by (simp add: move_construct_def)
  show ?thesis
    using h null_header_neutral [OF h, of 64 7 "[1, 2]" 2] by simp
qed

section \<open>Scheduler: admission, coverage and repeated finalization\<close>

text \<open>
  C3.  The scheduler \<open>long_period_scheduler\<close> holds two tasks that both passed
  validation, and their exact total utilization, \<open>1 + 1 / (2 ^ 54 + 1)\<close>, is greater
  than 1.  The rounded sum that \<open>check_schedulability\<close> compares with 1.0 is exactly 1,
  the least common multiple of the periods, \<open>2 ^ 108 - 1\<close>, is stored as the count \<open>-1\<close>,
  so no instance is enumerated and none is expected, and \<open>finalize_schedule\<close> reports
  the task set schedulable.
\<close>

theorem utilization_admission_overflow:
  "configured long_period_scheduler \<and>
   1 < exact_utilization (m_task_definitions long_period_scheduler) \<and>
   total_utilization (m_task_definitions long_period_scheduler) = 1 \<and>
   exact_hyperperiod (m_task_definitions long_period_scheduler) = 2 ^ 108 - 1 \<and>
   map_option (\<lambda>(r, s'). (is_schedulable r, sint (m_hyperperiod s'), m_schedule_table s'))
     (finalize_schedule insertion_sort long_period_scheduler) = Some (True, - 1, [])"
proof -
  have c: "configured long_period_scheduler" by code_simp
  have u: "1 < exact_utilization (m_task_definitions long_period_scheduler)" by code_simp
  have t: "total_utilization (m_task_definitions long_period_scheduler) = 1" by code_simp
  have h: "exact_hyperperiod (m_task_definitions long_period_scheduler) = 2 ^ 108 - 1"
    by code_simp
  have f: "map_option (\<lambda>(r, s'). (is_schedulable r, sint (m_hyperperiod s'), m_schedule_table s'))
     (finalize_schedule insertion_sort long_period_scheduler) = Some (True, - 1, [])"
    by code_simp
  show ?thesis using c u t h f by (intro conjI)
qed

text \<open>
  C4.  The scheduler \<open>coprime_period_scheduler\<close> holds two tasks that both passed
  validation, with periods \<open>2 ^ 32 + 1\<close> and \<open>2 ^ 32 - 1\<close> ns.  The least common multiple
  of the periods is \<open>2 ^ 64 - 1\<close>, and the sum of its quotients by the periods is
  \<open>2 ^ 33\<close>.  \<open>finalize_schedule\<close> reports the task set schedulable with the hyperperiod
  count \<open>-1\<close> and a table without entries.
\<close>

theorem hyperperiod_coverage_overflow:
  "configured coprime_period_scheduler \<and>
   exact_hyperperiod (m_task_definitions coprime_period_scheduler) = 2 ^ 64 - 1 \<and>
   (\<Sum>task\<leftarrow>m_task_definitions coprime_period_scheduler.
      exact_hyperperiod (m_task_definitions coprime_period_scheduler) div sint (period task))
     = 2 ^ 33 \<and>
   map_option (\<lambda>(r, s'). (is_schedulable r, sint (m_hyperperiod s'), m_schedule_table s'))
     (finalize_schedule insertion_sort coprime_period_scheduler) = Some (True, - 1, [])"
proof -
  have c: "configured coprime_period_scheduler" by code_simp
  have h: "exact_hyperperiod (m_task_definitions coprime_period_scheduler) = 2 ^ 64 - 1"
    by code_simp
  have n: "(\<Sum>task\<leftarrow>m_task_definitions coprime_period_scheduler.
      exact_hyperperiod (m_task_definitions coprime_period_scheduler) div sint (period task))
     = 2 ^ 33"
    by code_simp
  have f: "map_option (\<lambda>(r, s'). (is_schedulable r, sint (m_hyperperiod s'), m_schedule_table s'))
     (finalize_schedule insertion_sort coprime_period_scheduler) = Some (True, - 1, [])"
    by code_simp
  show ?thesis using c h n f by (intro conjI)
qed

lemma generate_schedule_table_again:
  assumes "generate_schedule_table std_sort s = Some s2"
  shows "generate_schedule_table std_sort s2 = Some s2"
proof (cases "m_task_definitions s = []")
  case True
  with assms have "s2 = s\<lparr>m_schedule_table := []\<rparr>"
    by (simp add: generate_schedule_table_def)
  then show ?thesis using True by (simp add: generate_schedule_table_def)
next
  case False
  with assms obtain table where
    p: "place_all (m_basic_time_unit s) (m_hyperperiod s) (m_task_definitions s) []
               (std_sort (by_release (m_task_definitions s))
                  (all_executions (m_hyperperiod s) (m_task_definitions s))) = Some table"
    and s2: "s2 = s\<lparr>m_schedule_table := std_sort by_start table\<rparr>"
    by (auto simp: generate_schedule_table_def split: option.splits)
  show ?thesis using False p unfolding s2 by (simp add: generate_schedule_table_def)
qed

lemma compute_hyperperiod_cong:
  assumes "m_task_definitions a = m_task_definitions b" "m_basic_time_unit a = m_basic_time_unit b"
  shows "compute_hyperperiod a = compute_hyperperiod b"
  using assms by (simp add: compute_hyperperiod_def split: list.splits)

lemma generate_schedule_table_fields:
  assumes "generate_schedule_table std_sort s = Some s2"
  shows "m_task_definitions s2 = m_task_definitions s \<and> m_hyperperiod s2 = m_hyperperiod s \<and>
         m_basic_time_unit s2 = m_basic_time_unit s"
  using assms by (auto simp: generate_schedule_table_def split: if_splits option.splits)

text \<open>
  C5 (as amended).  A second call of \<open>finalize_schedule\<close> on the scheduler that a first
  call has left returns what the first call returned, report and scheduler state: it is
  not rejected, and a task set reported schedulable is reported schedulable again.  The
  class has no record of having been finalized.
\<close>

theorem finalize_schedule_twice:
  "Option.bind (finalize_schedule std_sort s) (\<lambda>(r, s'). finalize_schedule std_sort s')
   = finalize_schedule std_sort s"
proof (cases "finalize_schedule std_sort s")
  case None
  then show ?thesis by simp
next
  case (Some p)
  obtain r s' where p: "p = (r, s')" by (cases p)
  have "finalize_schedule std_sort s' = Some (r, s')"
  proof (cases "m_task_definitions s = []")
    case True
    with Some p show ?thesis by (auto simp: finalize_schedule_def)
  next
    case ne: False
    let ?s1 = "s\<lparr>m_hyperperiod := compute_hyperperiod s\<rparr>"
    have h1: "compute_hyperperiod ?s1 = compute_hyperperiod s"
      by (rule compute_hyperperiod_cong) simp_all
    have c1: "check_schedulability ?s1 = check_schedulability s"
      by (simp add: check_schedulability_def)
    show ?thesis
    proof (cases "check_schedulability ?s1")
      case False
      with Some p ne have "s' = ?s1" and r: "finalize_schedule std_sort s = Some (r, ?s1)"
        by (auto simp: finalize_schedule_def Let_def)
      then show ?thesis using ne False r h1
        by (simp add: finalize_schedule_def Let_def)
    next
      case chk: True
      with Some p ne obtain s2 where g: "generate_schedule_table std_sort ?s1 = Some s2"
        by (auto simp: finalize_schedule_def Let_def split: option.splits)
      from generate_schedule_table_fields[OF g]
      have f2: "m_task_definitions s2 = m_task_definitions s"
        "m_hyperperiod s2 = compute_hyperperiod s" "m_basic_time_unit s2 = m_basic_time_unit s"
        by simp_all
      have s': "s' = s2" using Some p ne chk g
        by (auto simp: finalize_schedule_def Let_def split: if_splits)
      have h2: "compute_hyperperiod s2 = compute_hyperperiod s"
        by (rule compute_hyperperiod_cong) (simp_all add: f2)
      have e2: "s2\<lparr>m_hyperperiod := compute_hyperperiod s\<rparr> = s2"
        using f2(2) by simp
      have c2: "check_schedulability s2" using chk f2 by (simp add: check_schedulability_def)
      have g2: "generate_schedule_table std_sort s2 = Some s2"
        using g by (rule generate_schedule_table_again)
      have "finalize_schedule std_sort s2 = finalize_schedule std_sort s"
        by (simp add: finalize_schedule_def Let_def ne chk g f2 h2 e2 c2 g2)
      then show ?thesis using Some p s' by simp
    qed
  qed
  then show ?thesis using Some p by simp
qed

theorem finalize_schedule_twice_counterexample:
  "map_option (is_schedulable \<circ> fst)
     (Option.bind (finalize_schedule insertion_sort full_task_scheduler)
                  (\<lambda>(r, s'). finalize_schedule insertion_sort s')) = Some True"
  by code_simp

section \<open>Memory pool: failure of the mapping, and requests of size 0\<close>

lemma larger_class_loop_empty:
  assumes "\<forall>i<larger_sc + n. free_lists pool ! i = nullptr"
  shows "larger_class_loop pool sc larger_sc n = Inr (nullptr, pool)"
  using assms by (induction n arbitrary: larger_sc) simp_all

lemma allocate_from_size_class_empty:
  assumes "\<forall>i<16. free_lists pool ! i = nullptr"
  shows "allocate_from_size_class pool sc = Inr (nullptr, pool)"
proof (cases "sc \<ge> NUM_SIZE_CLASSES")
  case True
  then show ?thesis by (simp add: allocate_from_size_class_def)
next
  case False
  then have lt: "unat sc < 16" by (simp add: NUM_SIZE_CLASSES_def word_less_nat_alt not_le)
  then have h: "free_lists pool ! unat sc = nullptr" using assms by simp
  have "larger_class_loop pool sc (unat sc + 1) (unat NUM_SIZE_CLASSES - (unat sc + 1))
        = Inr (nullptr, pool)"
    by (rule larger_class_loop_empty) (use assms lt in \<open>simp add: NUM_SIZE_CLASSES_def\<close>)
  then show ?thesis using False h by (simp add: allocate_from_size_class_def)
qed

lemma add_chunk_mmap_fails:
  assumes "fst (mmap os) = None"
  shows "fst (add_chunk pool os min_data_size) = Inl bad_alloc"
proof -
  from assms obtain os' where "mmap os = (None, os')" by (cases "mmap os") auto
  then have "new_Chunk os sz False = (Inl bad_alloc, os')" for sz
    by (simp add: new_Chunk_def)
  then show ?thesis by (simp add: add_chunk_def Let_def)
qed

text \<open>
  The sibling \<open>allocate_arena\<close> turns the same failure of \<open>mmap\<close> into a null pointer, and
  a pool constructed with an initial size of 0 is the pool without chunks.
\<close>

lemma allocate_arena_mmap_fails:
  assumes "fst (mmap os) = None"
  shows "fst (allocate_arena pool os size_bytes) = Inr nullptr"
proof -
  from assms obtain os' where "mmap os = (None, os')" by (cases "mmap os") auto
  then have "new_Chunk os sz True = (Inl bad_alloc, os')" for sz
    by (simp add: new_Chunk_def)
  then show ?thesis by (simp add: allocate_arena_def)
qed

lemma new_MemoryPool_zero: "new_MemoryPool (heap empty_pool) os 0 = (Inr empty_pool, os)"
  by (simp add: new_MemoryPool_def empty_pool_def NUM_SIZE_CLASSES_def)

text \<open>
  C2.  When the request is not empty, every free list is empty and \<open>mmap\<close> fails,
  \<open>allocate\<close> does not return a null pointer: the \<open>std::bad_alloc\<close> that the constructor of
  \<open>Chunk\<close> throws inside \<open>add_chunk\<close> leaves \<open>allocate\<close>, for every size and every
  alignment.
\<close>

theorem allocate_throws_when_mmap_fails:
  assumes "size_bytes \<noteq> 0" and "\<forall>i<16. free_lists pool ! i = nullptr"
    and "fst (mmap os) = None"
  shows "fst (allocate pool os size_bytes alignment_bytes) = Inl bad_alloc"
proof -
  have a: "allocate_from_size_class pool sc = Inr (nullptr, pool)" for sc
    using assms(2) by (rule allocate_from_size_class_empty)
  have b: "fst (add_chunk pool os m) = Inl bad_alloc" for m
    using assms(3) by (rule add_chunk_mmap_fails)
  have c: "(case add_chunk pool os m of (Inl e, os1) \<Rightarrow> (Inl e, pool, os1) | (Inr pool2, os1) \<Rightarrow> g pool2 os1)
           = (Inl bad_alloc, pool, snd (add_chunk pool os m))" for m g
    using b[of m] by (cases "add_chunk pool os m") auto
  show ?thesis using assms(1)
    by (simp add: allocate_def Let_def a c)
qed

theorem allocate_throws_when_mmap_fails_witness:
  "(64 :: size_t) \<noteq> 0 \<and> free_lists empty_pool = replicate 16 nullptr \<and>
   fst (mmap exhausted_os) = None \<and>
   fst (allocate empty_pool exhausted_os 64 64) = Inl bad_alloc"
proof -
  have h1: "(64 :: size_t) \<noteq> 0" by simp
  have h2: "free_lists empty_pool = replicate 16 nullptr" by (simp add: empty_pool_def)
  have h3: "fst (mmap exhausted_os) = None" by (simp add: mmap_def exhausted_os_def)
  have "fst (allocate empty_pool exhausted_os 64 64) = Inl bad_alloc"
    using allocate_throws_when_mmap_fails [of 64 empty_pool exhausted_os 64] h2 h3 by simp
  then show ?thesis using h1 h2 h3 by (intro conjI)
qed

text \<open>
  C9.  \<open>allocate(0, a)\<close> returns the null pointer for every alignment and leaves the pool,
  with its free lists and all of its counters, and the operating system as they were.
\<close>

theorem allocate_zero:
  "allocate pool os 0 alignment_bytes = (Inr nullptr, pool, os)"
  by (simp add: allocate_def)

theorem allocate_zero_witness:
  "allocate empty_pool exhausted_os 0 64 = (Inr nullptr, empty_pool, exhausted_os)"
  using allocate_zero [of empty_pool exhausted_os 64] by simp

section \<open>Event logger: sequence numbers\<close>

lemma write_log_entry_sequence:
  "current_sequence_number (write_log_entry lg now type data_payload payload_size) =
     current_sequence_number lg + 1"
  by (simp add: write_log_entry_def Let_def)

lemma write_log_entry_stream_state:
  "is_open (log_file_stream (write_log_entry lg now type data_payload payload_size)) =
     is_open (log_file_stream lg)"
  "good (log_file_stream (write_log_entry lg now type data_payload payload_size)) =
     good (log_file_stream lg)"
  by (simp_all add: write_log_entry_def Let_def)

lemma frame_sequence_numbers_append:
  "frame_sequence_numbers (rs @ rs') = frame_sequence_numbers rs @ frame_sequence_numbers rs'"
  by (induction rs rule: frame_sequence_numbers.induct) simp_all

lemma write_log_entry_written:
  "written_sequence_numbers (write_log_entry lg now type data_payload payload_size) =
   written_sequence_numbers lg @
     (if is_open (log_file_stream lg) \<and> good (log_file_stream lg)
      then [current_sequence_number lg] else [])"
  by (simp add: write_log_entry_def written_sequence_numbers_def Let_def
      frame_sequence_numbers_append)

lemma write_log_entry_dropped:
  assumes "\<not> (is_open (log_file_stream lg) \<and> good (log_file_stream lg))"
  shows "write_log_entry lg now type data_payload payload_size =
           lg\<lparr>current_sequence_number := current_sequence_number lg + 1\<rparr>"
  using assms by (auto simp add: write_log_entry_def Let_def)

lemma rotate_log_file_sequence:
  "current_sequence_number (snd (rotate_log_file lg opened file_is_empty)) =
     current_sequence_number lg"
  by (simp add: rotate_log_file_def Let_def)

text \<open>A stream that is not open is attached to no file.\<close>

lemma log_step_attached:
  assumes "is_open (log_file_stream lg) \<or> file_records (log_file_stream lg) = []"
  shows "is_open (log_file_stream (log_step lg e)) \<or>
         file_records (log_file_stream (log_step lg e)) = []"
  using assms
  by (cases e) (auto simp add: write_log_entry_def rotate_log_file_def Let_def)

lemma rotate_log_file_written:
  assumes "is_open (log_file_stream lg) \<or> file_records (log_file_stream lg) = []"
  shows "written_sequence_numbers (snd (rotate_log_file lg opened file_is_empty)) =
           written_sequence_numbers lg"
  using assms
  by (auto simp add: rotate_log_file_def written_sequence_numbers_def Let_def
      frame_sequence_numbers_append)

lemma rotate_log_file_counts:
  "total_events_logged_count (snd (rotate_log_file lg opened file_is_empty)) =
     total_events_logged_count lg"
  by (simp add: rotate_log_file_def Let_def)

lemma upt_Suc_shift: "[0..<Suc n] = 0 # map Suc [0..<n]"
  by (simp add: upt_conv_Cons map_Suc_upt del: upt_Suc)

lemma assigned_numbers:
  "map fst (assigned lg evs) =
     map (\<lambda>i. current_sequence_number lg + of_nat i) [0..<length (filter is_call evs)]"
proof (induction evs arbitrary: lg)
  case Nil
  show ?case by simp
next
  case (Cons e evs)
  show ?case
  proof (cases e)
    case Stream_error
    then show ?thesis using Cons.IH [of "log_step lg Stream_error"] by simp
  next
    case (Rotate_log_file opened file_is_empty)
    then show ?thesis
      using Cons.IH [of "log_step lg e"] by (simp add: rotate_log_file_sequence)
  next
    case (Write_entry now type data_payload payload_size)
    have "map fst (assigned lg (e # evs)) =
            current_sequence_number lg # map fst (assigned (log_step lg e) evs)"
      using Write_entry by simp
    also have "map fst (assigned (log_step lg e) evs) =
            map (\<lambda>i. current_sequence_number lg + 1 + of_nat i) [0..<length (filter is_call evs)]"
      using Cons.IH [of "log_step lg e"] Write_entry by (simp add: write_log_entry_sequence)
    also have "\<dots> = map (\<lambda>i. current_sequence_number lg + of_nat i)
                        (map Suc [0..<length (filter is_call evs)])"
      by (simp add: add.assoc)
    finally show ?thesis
      using Write_entry by (simp add: upt_Suc_shift del: upt_Suc)
  qed
qed

lemma log_run_sequence:
  "current_sequence_number (log_run lg evs) =
     current_sequence_number lg + of_nat (length (filter is_call evs))"
proof (induction evs arbitrary: lg)
  case Nil
  show ?case by simp
next
  case (Cons e evs)
  show ?case
    using Cons.IH [of "log_step lg e"]
    by (cases e) (simp_all add: write_log_entry_sequence rotate_log_file_sequence)
qed

lemma stream_error_written:
  "written_sequence_numbers (lg\<lparr>log_file_stream := (log_file_stream lg)\<lparr>good := False\<rparr>\<rparr>) =
     written_sequence_numbers lg"
  by (simp add: written_sequence_numbers_def)

lemma log_run_written:
  assumes "is_open (log_file_stream lg) \<or> file_records (log_file_stream lg) = []"
  shows "written_sequence_numbers (log_run lg evs) =
           written_sequence_numbers lg @ map fst (filter snd (assigned lg evs))"
  using assms
proof (induction evs arbitrary: lg)
  case Nil
  show ?case by simp
next
  case (Cons e evs)
  have "written_sequence_numbers (log_run (log_step lg e) evs) =
          written_sequence_numbers (log_step lg e) @
            map fst (filter snd (assigned (log_step lg e) evs))"
    using Cons.prems by (intro Cons.IH log_step_attached)
  then show ?case
    using Cons.prems
    by (cases e) (simp_all add: write_log_entry_written rotate_log_file_written
        stream_error_written)
qed

lemma log_run_events_logged:
  "total_events_logged_count (log_run lg evs) =
     total_events_logged_count lg + of_nat (length (filter snd (assigned lg evs)))"
proof (induction evs arbitrary: lg)
  case Nil
  show ?case by simp
next
  case (Cons e evs)
  show ?case
  proof (cases e)
    case (Write_entry now type data_payload payload_size)
    have "total_events_logged_count (write_log_entry lg now type data_payload payload_size) =
            total_events_logged_count lg +
              (if is_open (log_file_stream lg) \<and> good (log_file_stream lg) then 1 else 0)"
      by (simp add: write_log_entry_def Let_def)
    then show ?thesis
      using Cons.IH [of "log_step lg e"] Write_entry by simp
  next
    case (Rotate_log_file opened file_is_empty)
    then show ?thesis
      using Cons.IH [of "log_step lg e"] by (simp add: rotate_log_file_counts)
  next
    case Stream_error
    then show ?thesis using Cons.IH [of "log_step lg e"] by simp
  qed
qed

lemma unat_of_nat_u64: "i < 2 ^ 64 \<Longrightarrow> unat (of_nat i :: u64) = i"
  by (simp add: unat_of_nat)

lemma new_EventLogger_fields:
  "current_sequence_number (new_EventLogger binary_mode file_is_empty) = 0"
  "written_sequence_numbers (new_EventLogger binary_mode file_is_empty) = []"
  "total_events_logged_count (new_EventLogger binary_mode file_is_empty) = 0"
  by (simp_all add: new_EventLogger_def written_sequence_numbers_def)

lemma assigned_from_zero:
  assumes "current_sequence_number lg = 0" and "length (filter is_call evs) \<le> 2 ^ 64"
  shows "map (unat \<circ> fst) (assigned lg evs) = [0..<length (filter is_call evs)]"
proof -
  have "map (unat \<circ> fst) (assigned lg evs) = map unat (map fst (assigned lg evs))"
    by simp
  also have "\<dots> = map (\<lambda>i. unat (of_nat i :: u64)) [0..<length (filter is_call evs)]"
    using assms(1) by (simp add: assigned_numbers comp_def)
  also have "\<dots> = map (\<lambda>i. i) [0..<length (filter is_call evs)]"
    using assms(2) by (intro map_cong refl unat_of_nat_u64) simp
  finally show ?thesis by simp
qed

lemma sorted_upt_less: "sorted_wrt (<) [0..<n::nat]"
  by (simp add: sorted_wrt_upt)

lemma assigned_increasing:
  assumes "current_sequence_number lg = 0" and "length (filter is_call evs) \<le> 2 ^ 64"
  shows "sorted_wrt (\<lambda>a b. fst a < fst b) (assigned lg evs)"
proof -
  have "sorted_wrt (<) (map (unat \<circ> fst) (assigned lg evs))"
    using assigned_from_zero [OF assms] by (simp add: sorted_upt_less)
  then show ?thesis
    by (simp add: sorted_wrt_map word_less_nat_alt)
qed

text \<open>
  C8.  In a run of a new logger with at most \<open>2 ^ 64\<close> calls of \<open>write_log_entry\<close>, the
  range of the 64-bit counter, among any rotations of the file and failures of the
  stream: the calls are assigned the sequence numbers 0, 1, 2, ... in their order, so the
  numbers start at 0 and increase strictly; after the run the counter is the number of
  calls, whether their frames were written or dropped; and the frames the logger has
  written carry, in the order they were written, the numbers of exactly the calls that
  found the stream open and good, which increase strictly and are distinct.
\<close>

theorem sequence_numbers:
  assumes "length (filter is_call evs) \<le> 2 ^ 64"
  shows "map (unat \<circ> fst) (assigned (new_EventLogger binary_mode file_is_empty) evs) =
           [0..<length (filter is_call evs)]
       \<and> sorted_wrt (<) (map fst (assigned (new_EventLogger binary_mode file_is_empty) evs))
       \<and> current_sequence_number (log_run (new_EventLogger binary_mode file_is_empty) evs) =
           of_nat (length (filter is_call evs))
       \<and> written_sequence_numbers (log_run (new_EventLogger binary_mode file_is_empty) evs) =
           map fst (filter snd (assigned (new_EventLogger binary_mode file_is_empty) evs))
       \<and> sorted_wrt (<)
           (written_sequence_numbers (log_run (new_EventLogger binary_mode file_is_empty) evs))
       \<and> distinct
           (written_sequence_numbers (log_run (new_EventLogger binary_mode file_is_empty) evs))"
proof -
  let ?lg = "new_EventLogger binary_mode file_is_empty"
  have zero: "current_sequence_number ?lg = 0"
    by (rule new_EventLogger_fields)
  have a: "map (unat \<circ> fst) (assigned ?lg evs) = [0..<length (filter is_call evs)]"
    by (rule assigned_from_zero [OF zero assms])
  have inc: "sorted_wrt (\<lambda>a b. fst a < fst b) (assigned ?lg evs)"
    by (rule assigned_increasing [OF zero assms])
  then have b: "sorted_wrt (<) (map fst (assigned ?lg evs))"
    by (simp add: sorted_wrt_map)
  have c: "current_sequence_number (log_run ?lg evs) = of_nat (length (filter is_call evs))"
    by (simp add: log_run_sequence zero)
  have d: "written_sequence_numbers (log_run ?lg evs) = map fst (filter snd (assigned ?lg evs))"
  proof -
    have "is_open (log_file_stream ?lg)" by (simp add: new_EventLogger_def)
    then show ?thesis by (simp add: log_run_written new_EventLogger_fields)
  qed
  have "sorted_wrt (\<lambda>a b. fst a < fst b) (filter snd (assigned ?lg evs))"
    using inc by (rule sorted_wrt_filter)
  then have e: "sorted_wrt (<) (written_sequence_numbers (log_run ?lg evs))"
    by (simp add: d sorted_wrt_map)
  then have f: "distinct (written_sequence_numbers (log_run ?lg evs))"
    by (simp add: strict_sorted_iff)
  show ?thesis
    using a b c d e f by (intro conjI)
qed

theorem sequence_numbers_witness:
  "length (filter is_call sample_log_events) \<le> 2 ^ 64
   \<and> assigned (new_EventLogger True True) sample_log_events =
       [(0, True), (1, False), (2, False), (3, True)]
   \<and> current_sequence_number (log_run (new_EventLogger True True) sample_log_events) = 4
   \<and> written_sequence_numbers (log_run (new_EventLogger True True) sample_log_events) = [0, 3]"
proof -
  have n: "length (filter is_call sample_log_events) = 4"
    by (simp add: sample_log_events_def)
  have w: "assigned (new_EventLogger True True) sample_log_events =
             [(0, True), (1, False), (2, False), (3, True)]"
    by (simp add: sample_log_events_def write_log_entry_stream_state write_log_entry_sequence
        rotate_log_file_def Let_def)
       (simp add: new_EventLogger_def)
  show ?thesis
    using sequence_numbers [of sample_log_events True True] n w by simp
qed

end
